theory Spec2Isabelle
  imports Main "HOL-Library.AList"
begin

section \<open>The Orlik-Solomon algebra of \<^verbatim>\<open>sage/algebras/orlik_solomon.py\<close>\<close>

text \<open>
  The class \<^verbatim>\<open>OrlikSolomonAlgebra\<close> keeps a matroid, a rank dictionary
  \<^verbatim>\<open>_sorting\<close> and a dictionary \<^verbatim>\<open>_broken_circuits\<close>; its methods
  \<^verbatim>\<open>subset_image\<close> and \<^verbatim>\<open>product_on_basis\<close> are recursive.  Ground-set elements
  are values of a linearly ordered type (the default ordering is \<^verbatim>\<open>sorted(M.groundset())\<close>),
  a frozenset is a finite set, a Python dictionary whose iteration order matters is an
  association list in insertion order, and an exception is a value of type \<open>error\<close>.
\<close>

subsection \<open>Errors and results\<close>

datatype error = KeyError | IndexError | ValueError | InvalidOrderingError

text \<open>
  \<open>KeyError\<close>, \<open>IndexError\<close> and \<open>ValueError\<close> are the exceptions that the source can raise.
  \<open>InvalidOrderingError\<close> is the error that the specification names for a sequence that is
  not an ordering of the ground set; no line of the source raises it.
\<close>

text \<open>
  A call either does not return within the given recursion depth (\<open>None\<close>), raises
  (\<open>Some (Inl e)\<close>) or returns a value (\<open>Some (Inr v)\<close>).
\<close>

type_synonym 'v outcome = "(error + 'v) option"

subsection \<open>Elements of the free module\<close>

text \<open>
  Modelled from the spec: the storage and arithmetic of linear combinations belong to the
  free-module component \<^verbatim>\<open>CombinatorialFreeModule\<close>, which is not part of the sources at
  hand.  An algebra element is a mapping from basis index to ring coefficient in which zero
  coefficients are omitted; addition and scalar multiplication are pointwise.  The mapping
  is a dictionary: an association list with distinct keys.
\<close>

type_synonym ('a, 'r) element = "('a set \<times> 'r) list"

definition coefficient :: "('a, 'r::zero) element \<Rightarrow> 'a set \<Rightarrow> 'r" where
  "coefficient x m = (case map_of x m of None \<Rightarrow> 0 | Some c \<Rightarrow> c)"

definition zero :: "('a, 'r) element" where
  "zero = []"

definition monomial :: "'a set \<Rightarrow> ('a, 'r::one) element" where
  "monomial m = [(m, 1)]"

definition set_coefficient :: "('a, 'r::zero) element \<Rightarrow> 'a set \<Rightarrow> 'r \<Rightarrow> ('a, 'r) element" where
  "set_coefficient x m c = (if c = 0 then AList.delete m x else AList.update m c x)"

definition add :: "('a, 'r::comm_ring_1) element \<Rightarrow> ('a, 'r) element \<Rightarrow> ('a, 'r) element" where
  "add x y = fold (\<lambda>(m, c) r. set_coefficient r m (coefficient r m + c)) y x"

definition scale :: "'r::comm_ring_1 \<Rightarrow> ('a, 'r) element \<Rightarrow> ('a, 'r) element" where
  "scale k x = filter (\<lambda>(m, c). c \<noteq> 0) (map (\<lambda>(m, c). (m, k * c)) x)"

subsection \<open>The matroid and the state of the algebra\<close>

text \<open>
  Modelled from the spec: the matroid component supplies the ground set, the circuits as a
  sequence of subsets, and the enumeration of the NBC sets for an ordering, which populates
  the index set of the basis once, at construction.  The enumeration is code outside the
  source at hand: it is a parameter, and it may raise.
\<close>

record 'a matroid =
  groundset :: "'a set"
  circuits :: "'a set list"
  no_broken_circuits_sets :: "'a list \<Rightarrow> error + 'a set list"

record 'a os_algebra =
  self_M :: "'a matroid"
  self_sorting :: "'a \<rightharpoonup> nat"
  self_broken_circuits :: "('a set \<times> 'a) list"
  self_indices :: "'a set list"

subsection \<open>Construction: \<^verbatim>\<open>__init__\<close>\<close>

text \<open>\<^verbatim>\<open>{x:i for i,x in enumerate(ordering)}\<close>: a later occurrence of \<open>x\<close> overwrites its rank.\<close>

definition sorting_of :: "'a list \<Rightarrow> ('a \<rightharpoonup> nat)" where
  "sorting_of ordr = fold (\<lambda>(i, x) m. m(x \<mapsto> i)) (enumerate 0 ordr) Map.empty"

text \<open>
  \<^verbatim>\<open>sorted(S, key=lambda x: self._sorting[x])\<close>: the key of every element is looked up, which
  raises \<^verbatim>\<open>KeyError\<close> for an element without rank, and the elements are sorted stably by
  key.  The frozenset is enumerated in the order of the element type; lemma
  \<open>sorted_by_rank_any_enumeration\<close> below shows that the result is the same for every
  other enumeration, ranks being injective.
\<close>

definition sorted_by_rank :: "('a::linorder \<rightharpoonup> nat) \<Rightarrow> 'a set \<Rightarrow> error + 'a list" where
  "sorted_by_rank srt S =
     (let xs = sorted_list_of_set S
      in if list_all (\<lambda>x. srt x \<noteq> None) xs
         then Inr (sort_key (\<lambda>x. the (srt x)) xs)
         else Inl KeyError)"

text \<open>
  One round of the loop over the circuits: \<^verbatim>\<open>L = sorted(c, key=...)\<close>, then
  \<^verbatim>\<open>self._broken_circuits[frozenset(L[1:])] = L[0]\<close>.  \<^verbatim>\<open>L[0]\<close> raises
  \<^verbatim>\<open>IndexError\<close> on an empty circuit.  Assignment to a key that is present keeps the
  key's place in the dictionary and replaces its value.
\<close>

definition add_circuit ::
  "('a::linorder \<rightharpoonup> nat) \<Rightarrow> 'a set \<Rightarrow> ('a set \<times> 'a) list \<Rightarrow> error + ('a set \<times> 'a) list" where
  "add_circuit srt c tbl =
     (case sorted_by_rank srt c of
        Inl e \<Rightarrow> Inl e
      | Inr L \<Rightarrow> (case L of [] \<Rightarrow> Inl IndexError
                 | l0 # rest \<Rightarrow> Inr (AList.update (set rest) l0 tbl)))"

fun build_table ::
  "('a::linorder \<rightharpoonup> nat) \<Rightarrow> 'a set list \<Rightarrow> ('a set \<times> 'a) list \<Rightarrow> error + ('a set \<times> 'a) list" where
  "build_table srt [] tbl = Inr tbl"
| "build_table srt (c # cs) tbl =
     (case add_circuit srt c tbl of Inl e \<Rightarrow> Inl e | Inr tbl' \<Rightarrow> build_table srt cs tbl')"

definition init :: "'a::linorder matroid \<Rightarrow> 'a list option \<Rightarrow> error + 'a os_algebra" where
  "init M ordr =
     (let ord = (case ordr of None \<Rightarrow> sorted_list_of_set (groundset M) | Some xs \<Rightarrow> xs);
          srt = sorting_of ord
      in case build_table srt (circuits M) [] of
           Inl e \<Rightarrow> Inl e
         | Inr tbl \<Rightarrow>
            (case no_broken_circuits_sets M ord of
               Inl e \<Rightarrow> Inl e
             | Inr idx \<Rightarrow> Inr \<lparr>self_M = M, self_sorting = srt, self_broken_circuits = tbl,
                                self_indices = idx\<rparr>))"

subsection \<open>\<^verbatim>\<open>subset_image\<close>\<close>

definition symmetric_difference :: "'a set \<Rightarrow> 'a set \<Rightarrow> 'a set" where
  "symmetric_difference A B = (A - B) \<union> (B - A)"

text \<open>
  The inner loop \<^verbatim>\<open>for j in Ss\<close> with its state \<open>(r, coeff)\<close>; \<open>rec\<close> is the recursive
  call \<^verbatim>\<open>self.subset_image\<close>, whose failure ends the loop.
\<close>

fun reduce_loop ::
  "('a set \<Rightarrow> ('a, 'r::comm_ring_1) element outcome) \<Rightarrow> 'a set \<Rightarrow> 'a set \<Rightarrow> 'a \<Rightarrow> 'a list
     \<Rightarrow> ('a, 'r) element \<times> 'r \<Rightarrow> ('a, 'r) element outcome" where
  "reduce_loop rec S bc i [] (r, coeff) = Some (Inr r)"
| "reduce_loop rec S bc i (j # js) (r, coeff) =
     (if j \<in> bc
      then (case rec (symmetric_difference S {i, j}) of
              None \<Rightarrow> None
            | Some (Inl e) \<Rightarrow> Some (Inl e)
            | Some (Inr x) \<Rightarrow> reduce_loop rec S bc i js (add r (scale coeff x), coeff * (- 1)))
      else reduce_loop rec S bc i js (r, coeff * (- 1)))"

text \<open>
  \<^verbatim>\<open>subset_image(S)\<close> with a bound on the depth of the recursion.  The type test on \<open>S\<close>
  is the type of the argument.  The scan \<^verbatim>\<open>for bc in self._broken_circuits\<close> runs over
  the keys in dictionary order and stops at the first key that is a subset of \<open>S\<close>, since
  both branches of its body return; the \<^verbatim>\<open>else\<close> of the \<^verbatim>\<open>for\<close> is reached when
  no key is.  The cache of \<^verbatim>\<open>@cached_method\<close> does not change the value returned.
\<close>

fun subset_image_fuel ::
  "nat \<Rightarrow> 'a::linorder os_algebra \<Rightarrow> 'a set \<Rightarrow> ('a, 'r::comm_ring_1) element outcome" where
  "subset_image_fuel 0 st S = None"
| "subset_image_fuel (Suc n) st S =
     (case sorted_by_rank (self_sorting st) S of
        Inl e \<Rightarrow> Some (Inl e)
      | Inr Ss \<Rightarrow>
         (case find (\<lambda>bc. bc \<subseteq> S) (map fst (self_broken_circuits st)) of
            None \<Rightarrow> Some (Inr (monomial S))
          | Some bc \<Rightarrow>
             (case map_of (self_broken_circuits st) bc of
                None \<Rightarrow> Some (Inl KeyError)
              | Some i \<Rightarrow>
                 if i \<in> S then Some (Inr zero)
                 else reduce_loop (\<lambda>T. subset_image_fuel n st T) S bc i Ss (zero, 1))))"

subsection \<open>\<^verbatim>\<open>algebra_generators\<close> and the product\<close>

text \<open>
  Modelled from the spec: the family of generators has one entry per ground-set element,
  each produced by \<^verbatim>\<open>subset_image({x})\<close>; the docstring shows it as a finite family with
  its values, so every entry is computed when the family is built.
\<close>

fun generators_loop ::
  "('a set \<Rightarrow> ('a, 'r) element outcome) \<Rightarrow> 'a list \<Rightarrow> ('a \<times> ('a, 'r) element) list outcome" where
  "generators_loop rec [] = Some (Inr [])"
| "generators_loop rec (x # xs) =
     (case rec {x} of
        None \<Rightarrow> None
      | Some (Inl e) \<Rightarrow> Some (Inl e)
      | Some (Inr g) \<Rightarrow>
         (case generators_loop rec xs of
            None \<Rightarrow> None
          | Some (Inl e) \<Rightarrow> Some (Inl e)
          | Some (Inr G) \<Rightarrow> Some (Inr ((x, g) # G))))"

definition algebra_generators_fuel ::
  "nat \<Rightarrow> 'a::linorder os_algebra \<Rightarrow> ('a \<times> ('a, 'r::comm_ring_1) element) list outcome" where
  "algebra_generators_fuel n st =
     generators_loop (\<lambda>T. subset_image_fuel n st T) (sorted_list_of_set (groundset (self_M st)))"

text \<open>
  Modelled from the spec: the product of two algebra elements is the linear extension of
  \<^verbatim>\<open>product_on_basis\<close>, taken over the terms of both factors.
\<close>

fun linear_combination ::
  "(('a, 'r::comm_ring_1) element outcome \<times> 'r) list \<Rightarrow> ('a, 'r) element \<Rightarrow> ('a, 'r) element outcome" where
  "linear_combination [] acc = Some (Inr acc)"
| "linear_combination ((t, k) # ts) acc =
     (case t of
        None \<Rightarrow> None
      | Some (Inl e) \<Rightarrow> Some (Inl e)
      | Some (Inr x) \<Rightarrow> linear_combination ts (add acc (scale k x)))"

definition multiply ::
  "('a set \<Rightarrow> 'a set \<Rightarrow> ('a, 'r::comm_ring_1) element outcome) \<Rightarrow> ('a, 'r) element \<Rightarrow> ('a, 'r) element
     \<Rightarrow> ('a, 'r) element outcome" where
  "multiply pob x y =
     linear_combination
       (concat (map (\<lambda>(ma, ca). map (\<lambda>(mb, cb). (pob ma mb, ca * cb)) y) x)) zero"

text \<open>\<^verbatim>\<open>ns_sorted.index(i)\<close>, which raises \<^verbatim>\<open>ValueError\<close> when \<open>i\<close> is absent.\<close>

fun list_index :: "'a list \<Rightarrow> 'a \<Rightarrow> error + nat" where
  "list_index [] i = Inl ValueError"
| "list_index (x # xs) i =
     (if x = i then Inr 0
      else (case list_index xs i of Inl e \<Rightarrow> Inl e | Inr p \<Rightarrow> Inr (Suc p)))"

text \<open>The loop \<^verbatim>\<open>for i in sorted(a, ...): r = G[i] * r\<close>.\<close>

fun generator_loop ::
  "('a set \<Rightarrow> 'a set \<Rightarrow> ('a, 'r::comm_ring_1) element outcome) \<Rightarrow> ('a \<times> ('a, 'r) element) list
     \<Rightarrow> 'a list \<Rightarrow> ('a, 'r) element \<Rightarrow> ('a, 'r) element outcome" where
  "generator_loop pob G [] r = Some (Inr r)"
| "generator_loop pob G (i # is) r =
     (case map_of G i of
        None \<Rightarrow> Some (Inl KeyError)
      | Some g \<Rightarrow>
         (case multiply pob g r of
            None \<Rightarrow> None
          | Some (Inl e) \<Rightarrow> Some (Inl e)
          | Some (Inr r') \<Rightarrow> generator_loop pob G is r'))"

text \<open>
  \<^verbatim>\<open>product_on_basis(a, b)\<close> with a bound on the depth of the recursion, which runs
  through the product \<^verbatim>\<open>G[i] * r\<close> of the last branch.  \<^verbatim>\<open>self.basis()[b]\<close> is the basis
  element indexed by \<open>b\<close>.
\<close>

fun product_on_basis_fuel ::
  "nat \<Rightarrow> 'a::linorder os_algebra \<Rightarrow> 'a set \<Rightarrow> 'a set \<Rightarrow> ('a, 'r::comm_ring_1) element outcome" where
  "product_on_basis_fuel 0 st a b = None"
| "product_on_basis_fuel (Suc n) st a b =
     (if a = {} then Some (Inr (monomial b))
      else if b = {} then Some (Inr (monomial a))
      else if a \<inter> b \<noteq> {} then Some (Inr zero)
      else if card a = 1 then
        (let i = hd (sorted_list_of_set a); ns = b \<union> {i}
         in case sorted_by_rank (self_sorting st) ns of
              Inl e \<Rightarrow> Some (Inl e)
            | Inr ns_sorted \<Rightarrow>
               (case list_index ns_sorted i of
                  Inl e \<Rightarrow> Some (Inl e)
                | Inr p \<Rightarrow>
                   (case subset_image_fuel n st ns of
                      None \<Rightarrow> None
                    | Some (Inl e) \<Rightarrow> Some (Inl e)
                    | Some (Inr x) \<Rightarrow> Some (Inr (scale ((- 1) ^ p) x)))))
      else
        (let sign = (if card a mod 4 < 2 then 1 else - 1); r = [(b, sign)]
         in case algebra_generators_fuel n st of
              None \<Rightarrow> None
            | Some (Inl e) \<Rightarrow> Some (Inl e)
            | Some (Inr G) \<Rightarrow>
               (case sorted_by_rank (self_sorting st) a of
                  Inl e \<Rightarrow> Some (Inl e)
                | Inr as \<Rightarrow> generator_loop (\<lambda>x y. product_on_basis_fuel n st x y) G as r)))"

subsection \<open>Predicates of the specification\<close>

text \<open>
  An NBC set contains no key of the table of broken circuits as a subset.  In the theorems
  a set of ranked elements is a subset of the domain of \<^verbatim>\<open>_sorting\<close>.
\<close>

definition is_nbc :: "'a os_algebra \<Rightarrow> 'a set \<Rightarrow> bool" where
  "is_nbc st S = (\<not> list_ex (\<lambda>bc. bc \<subseteq> S) (map fst (self_broken_circuits st)))"

text \<open>
  Modelled from the spec: the enumeration of the NBC sets by the matroid component, as the
  subsets of the ground set that contain no broken circuit for the ordering.  The concrete
  matroids below use it as their enumeration; the spec describes the component for an
  ordering of the ground set only, and the concrete algebras are built with such an ordering.
\<close>

definition nbc_sets_of :: "'a::linorder set \<Rightarrow> 'a set list \<Rightarrow> 'a list \<Rightarrow> 'a set list" where
  "nbc_sets_of G cs ord =
     (case build_table (sorting_of ord) cs [] of
        Inl e \<Rightarrow> []
      | Inr tbl \<Rightarrow> filter (\<lambda>S. \<not> list_ex (\<lambda>bc. bc \<subseteq> S) (map fst tbl))
                    (map set (subseqs (sorted_list_of_set G))))"

subsection \<open>Concrete matroids\<close>

text \<open>
  The cycle matroid of two triangles that share the edge 1 (edges 0, 1, 3 and 1, 2, 4), and
  the algebra that \<open>init\<close> builds for it with the default ordering.
\<close>

definition diamond :: "nat matroid" where
  "diamond = \<lparr>groundset = {0, 1, 2, 3, 4}, circuits = [{0, 1, 3}, {0, 2, 3, 4}, {1, 2, 4}],
     no_broken_circuits_sets =
       (\<lambda>ord. Inr (nbc_sets_of {0, 1, 2, 3, 4} [{0, 1, 3}, {0, 2, 3, 4}, {1, 2, 4}] ord))\<rparr>"

definition diamond_algebra :: "nat os_algebra" where
  "diamond_algebra = \<lparr>self_M = diamond, self_sorting = sorting_of [0, 1, 2, 3, 4],
     self_broken_circuits = [({1, 3}, 0), ({2, 3, 4}, 0), ({2, 4}, 1)],
     self_indices = nbc_sets_of {0, 1, 2, 3, 4} [{0, 1, 3}, {0, 2, 3, 4}, {1, 2, 4}] [0, 1, 2, 3, 4]\<rparr>"

text \<open>
  The values of the recursive calls when \<open>{2, 3, 4}\<close> is rewritten with the broken circuit
  \<open>{2, 3, 4}\<close> and the element 0, by the element \<open>j\<close> that is replaced.
\<close>

definition diamond_branch :: "nat \<Rightarrow> (nat, int) element" where
  "diamond_branch j =
     (if j = 2 then [({0, 3, 4}, 1)]
      else if j = 3 then [({0, 1, 4}, - 1), ({0, 1, 2}, 1)]
      else [({0, 2, 3}, 1)])"

text \<open>The matroid on one element that is a loop, and its algebra.\<close>

definition loop_matroid :: "nat matroid" where
  "loop_matroid = \<lparr>groundset = {0}, circuits = [{0}],
     no_broken_circuits_sets = (\<lambda>ord. Inr (nbc_sets_of {0} [{0}] ord))\<rparr>"

definition loop_algebra :: "nat os_algebra" where
  "loop_algebra = \<lparr>self_M = loop_matroid, self_sorting = sorting_of [0],
     self_broken_circuits = [({}, 0)], self_indices = nbc_sets_of {0} [{0}] [0]\<rparr>"

text \<open>The rank \<^verbatim>\<open>self._sorting[x]\<close> of an element that has one.\<close>

definition rank_of :: "'a os_algebra \<Rightarrow> 'a \<Rightarrow> nat" where
  "rank_of st x = the (self_sorting st x)"

text \<open>The sum of the ranks of a set: the measure that every rewriting step decreases.\<close>

definition rank_sum :: "'a os_algebra \<Rightarrow> 'a set \<Rightarrow> nat" where
  "rank_sum st S = sum (rank_of st) S"

text \<open>
  The ranks of a set listed in descending order; sets are compared through these lists,
  lexicographically.
\<close>

definition descending_ranks :: "'a::linorder os_algebra \<Rightarrow> 'a set \<Rightarrow> nat list" where
  "descending_ranks st S = rev (sort (map (rank_of st) (sorted_list_of_set S)))"

text \<open>
  The circuits of a matroid satisfy the elimination axiom: two distinct circuits with a
  common element \<open>e\<close> have a circuit inside their union that avoids \<open>e\<close>.
\<close>

definition circuit_elimination :: "'a matroid \<Rightarrow> bool" where
  "circuit_elimination M =
     (\<forall>c1\<in>set (circuits M). \<forall>c2\<in>set (circuits M). c1 \<noteq> c2 \<longrightarrow>
        (\<forall>e\<in>c1 \<inter> c2. \<exists>c3\<in>set (circuits M). c3 \<subseteq> (c1 \<union> c2) - {e}))"

text \<open>
  The cycle matroid of a theta graph on six edges, with circuits \<open>{0, 3, 4}\<close>,
  \<open>{1, 2, 3, 5}\<close> and \<open>{0, 1, 2, 4, 5}\<close>; the circuits are a parameter so that every
  order of enumeration can be tried.
\<close>

definition theta :: "nat set list \<Rightarrow> nat matroid" where
  "theta cs = \<lparr>groundset = {0, 1, 2, 3, 4, 5}, circuits = cs,
     no_broken_circuits_sets = (\<lambda>ord. Inr (nbc_sets_of {0, 1, 2, 3, 4, 5} cs ord))\<rparr>"

definition theta_algebra :: "nat os_algebra" where
  "theta_algebra = \<lparr>self_M = theta [{0, 3, 4}, {1, 2, 3, 5}, {0, 1, 2, 4, 5}],
     self_sorting = sorting_of [0, 1, 2, 3, 4, 5],
     self_broken_circuits = [({3, 4}, 0), ({2, 3, 5}, 1), ({1, 2, 4, 5}, 0)],
     self_indices = nbc_sets_of {0, 1, 2, 3, 4, 5} [{0, 3, 4}, {1, 2, 3, 5}, {0, 1, 2, 4, 5}]
       [0, 1, 2, 3, 4, 5]\<rparr>"

text \<open>
  Whether the two products of \<open>a\<close> and \<open>b\<close> return and agree, up to the sign of graded
  commutativity, in the coefficient of the basis index \<open>m\<close>.
\<close>

definition graded_commutative_at ::
  "nat \<Rightarrow> nat os_algebra \<Rightarrow> nat set \<Rightarrow> nat set \<Rightarrow> nat set \<Rightarrow> bool" where
  "graded_commutative_at n st a b m =
     (case (product_on_basis_fuel n st a b, product_on_basis_fuel n st b a) of
        (Some (Inr x), Some (Inr y)) \<Rightarrow>
          coefficient x m = (- 1) ^ (card a * card b) * coefficient (y :: (nat, int) element) m
      | _ \<Rightarrow> False)"

subsection \<open>\<^verbatim>\<open>_repr_term\<close>\<close>

text \<open>
  \<^verbatim>\<open>"OS{{{}}}".format(str(list(m))[1:-1])\<close>.  \<^verbatim>\<open>list(m)\<close> lists the frozenset in its
  iteration order, which the set's contents do not determine; the model takes that list as
  its argument.  \<^verbatim>\<open>str\<close> of a list joins the \<^verbatim>\<open>repr\<close> of the elements with a comma and
  a space inside brackets, and the slice \<^verbatim>\<open>[1:-1]\<close> drops the first and the last
  character.  \<open>str_nat\<close> is the \<^verbatim>\<open>repr\<close> of a natural number.
\<close>

fun str_nat :: "nat \<Rightarrow> string" where
  "str_nat n =
     (if n < 10 then [char_of (48 + n)] else str_nat (n div 10) @ [char_of (48 + n mod 10)])"

declare str_nat.simps [simp del]

fun join :: "string \<Rightarrow> string list \<Rightarrow> string" where
  "join sep [] = []"
| "join sep [x] = x"
| "join sep (x # y # ys) = x @ sep @ join sep (y # ys)"

definition str_list :: "('a \<Rightarrow> string) \<Rightarrow> 'a list \<Rightarrow> string" where
  "str_list repr_elt xs = ''['' @ join '', '' (map repr_elt xs) @ '']''"

definition repr_term :: "('a \<Rightarrow> string) \<Rightarrow> 'a list \<Rightarrow> string" where
  "repr_term repr_elt list_m = ''OS{'' @ butlast (tl (str_list repr_elt list_m)) @ ''}''"

section \<open>Properties\<close>

subsection \<open>The concrete algebras are the ones \<open>init\<close> builds\<close>

lemma sorted_list_of_set_numerals:
  "sorted_list_of_set {0::nat, 1, 2, 3, 4} = [0, 1, 2, 3, 4]"
  "sorted_list_of_set {0::nat} = [0]"
  by code_simp+

lemma table_diamond:
  "build_table (sorting_of [0::nat, 1, 2, 3, 4]) [{0, 1, 3}, {0, 2, 3, 4}, {1, 2, 4}] []
     = Inr [({1, 3}, 0), ({2, 3, 4}, 0), ({2, 4}, 1)]"
  by code_simp

lemma table_loop: "build_table (sorting_of [0::nat]) [{0}] [] = Inr [({}, 0)]"
  by code_simp

lemma init_diamond: "init diamond None = Inr diamond_algebra"
  by (simp only: init_def diamond_def diamond_algebra_def matroid.simps option.case Let_def
      sorted_list_of_set_numerals table_diamond sum.case)

lemma init_loop: "init loop_matroid None = Inr loop_algebra"
  by (simp only: init_def loop_matroid_def loop_algebra_def matroid.simps option.case Let_def
      sorted_list_of_set_numerals table_loop sum.case)

subsection \<open>Ranks\<close>

lemma dom_sorting_of_aux:
  "dom (fold (\<lambda>(i, x) m. m(x \<mapsto> i)) (enumerate k xs) m0) = dom m0 \<union> set xs"
  by (induction xs arbitrary: k m0) auto

lemma dom_sorting_of: "dom (sorting_of xs) = set xs"
  by (simp add: sorting_of_def dom_sorting_of_aux)

lemma sorted_by_rank_ranked:
  "finite S \<Longrightarrow> S \<subseteq> dom srt \<Longrightarrow>
   sorted_by_rank srt S = Inr (sort_key (\<lambda>x. the (srt x)) (sorted_list_of_set S))"
  by (auto simp: sorted_by_rank_def list_all_iff)

subsection \<open>The terminal case of \<^verbatim>\<open>subset_image\<close>\<close>

lemma find_keys_None:
  "is_nbc st S \<Longrightarrow> find (\<lambda>bc. bc \<subseteq> S) (map fst (self_broken_circuits st)) = None"
  by (auto simp: is_nbc_def list_ex_iff find_None_iff)

text \<open>
  C1, as amended.  For every finite set \<open>S\<close> of ranked elements that is an NBC set, that is,
  no key of the table of broken circuits is a subset of \<open>S\<close>, \<^verbatim>\<open>subset_image(S)\<close> returns
  the basis element indexed by \<open>S\<close> with coefficient 1, at every depth bound.  The empty set
  is covered exactly when the empty set is not a key of the table.
\<close>

theorem subset_image_nbc:
  assumes "is_nbc st S" and "finite S" and "S \<subseteq> dom (self_sorting st)"
  shows "subset_image_fuel (Suc n) st S = Some (Inr (monomial S))"
  using assms by (simp add: sorted_by_rank_ranked find_keys_None)

theorem subset_image_nbc_witness:
  "is_nbc diamond_algebra {0, 3, 4} \<and> finite {0::nat, 3, 4}
   \<and> {0, 3, 4} \<subseteq> dom (self_sorting diamond_algebra)
   \<and> (subset_image_fuel (Suc 0) diamond_algebra {0, 3, 4} :: (nat, int) element outcome)
       = Some (Inr (monomial {0, 3, 4}))"
  using subset_image_nbc [of diamond_algebra "{0, 3, 4}" 0]
  by (simp add: is_nbc_def diamond_algebra_def dom_sorting_of)

text \<open>
  The claim as stated also promises the basis element for the empty set.  A matroid with a
  loop has the empty set as a broken circuit, the scan finds it in every \<open>S\<close>, and for the
  empty \<open>S\<close> the rewriting loop runs over no element: the result is the zero element.
\<close>

theorem subset_image_empty_counterexample:
  "init loop_matroid None = Inr loop_algebra
   \<and> (subset_image_fuel (Suc 0) loop_algebra {} :: (nat, int) element outcome) = Some (Inr zero)
   \<and> (zero :: (nat, int) element) \<noteq> monomial {}"
  by (simp add: init_loop loop_algebra_def sorted_by_rank_def zero_def monomial_def)

subsection \<open>The product of basis elements\<close>

text \<open>
  C6.  When \<open>a\<close> and \<open>b\<close> have an element in common (both are then nonempty),
  \<^verbatim>\<open>product_on_basis(a, b)\<close> returns the zero element; in particular
  \<^verbatim>\<open>product_on_basis(a, a)\<close> is zero for every nonempty \<open>a\<close>.
\<close>

theorem product_on_basis_intersecting:
  "(a \<inter> b \<noteq> {} \<longrightarrow> product_on_basis_fuel (Suc n) st a b = Some (Inr zero))
   \<and> (a \<noteq> {} \<longrightarrow> product_on_basis_fuel (Suc n) st a a = Some (Inr zero))"
  by auto

theorem product_on_basis_intersecting_witness:
  "{0, 3} \<inter> {3, 4} \<noteq> ({} :: nat set) \<and> {0, 3} \<noteq> ({} :: nat set)
   \<and> (product_on_basis_fuel (Suc 0) diamond_algebra {0, 3} {3, 4} :: (nat, int) element outcome)
       = Some (Inr zero)
   \<and> (product_on_basis_fuel (Suc 0) diamond_algebra {0, 3} {0, 3} :: (nat, int) element outcome)
       = Some (Inr zero)"
  using product_on_basis_intersecting [of "{0, 3}" "{3, 4}" 0 diamond_algebra]
    product_on_basis_intersecting [of "{0, 3}" "{0, 3}" 0 diamond_algebra]
  by simp

subsection \<open>Ranks are injective; sorting by rank\<close>

lemma sorting_of_aux:
  "fold (\<lambda>(i, x) m. m(x \<mapsto> i)) (enumerate k xs) m0 x = Some i \<Longrightarrow>
   (k \<le> i \<and> i < k + length xs \<and> xs ! (i - k) = x) \<or> m0 x = Some i"
proof (induction xs arbitrary: k m0)
  case Nil
  then show ?case by simp
next
  case (Cons y ys)
  from Cons.prems have "fold (\<lambda>(i, x) m. m(x \<mapsto> i)) (enumerate (Suc k) ys) (m0(y \<mapsto> k)) x = Some i"
    by (simp del: fun_upd_apply)
  from Cons.IH [OF this] show ?case
    by (auto simp: nth_Cons' Suc_diff_le split: if_splits)
qed

lemma sorting_of_nth: "sorting_of xs x = Some i \<Longrightarrow> i < length xs \<and> xs ! i = x"
  using sorting_of_aux [of 0 xs Map.empty x i] by (simp add: sorting_of_def)

lemma sorting_of_inj: "sorting_of xs x = Some i \<Longrightarrow> sorting_of xs y = Some i \<Longrightarrow> x = y"
  by (metis sorting_of_nth)

lemma sorting_of_inj_on: "S \<subseteq> dom (sorting_of xs) \<Longrightarrow> inj_on (\<lambda>x. the (sorting_of xs x)) S"
  by (rule inj_onI) (metis domD option.sel sorting_of_inj subsetD)

lemma sorted_by_rank_Inr:
  assumes "sorted_by_rank srt S = Inr Ss" and "finite S"
  shows "set Ss = S" and "distinct Ss" and "sorted (map (\<lambda>x. the (srt x)) Ss)"
    and "length Ss = card S" and "S \<subseteq> dom srt"
    and "Ss = sort_key (\<lambda>x. the (srt x)) (sorted_list_of_set S)"
proof -
  from assms(1) have Ss: "Ss = sort_key (\<lambda>x. the (srt x)) (sorted_list_of_set S)"
    and all: "list_all (\<lambda>x. srt x \<noteq> None) (sorted_list_of_set S)"
    by (auto simp: sorted_by_rank_def Let_def split: if_splits)
  show "Ss = sort_key (\<lambda>x. the (srt x)) (sorted_list_of_set S)" by (rule Ss)
  show "set Ss = S" using assms(2) by (simp add: Ss)
  show "distinct Ss" by (simp add: Ss)
  show "sorted (map (\<lambda>x. the (srt x)) Ss)" by (simp add: Ss)
  show "length Ss = card S" using assms(2) by (simp add: Ss)
  show "S \<subseteq> dom srt" using all assms(2) by (auto simp: list_all_iff)
qed

lemma sorted_by_rank_any_enumeration:
  assumes "finite S" and "inj_on (\<lambda>x. the (srt x)) S" and "set xs = S" and "distinct xs"
  shows "sort_key (\<lambda>x. the (srt x)) xs = sort_key (\<lambda>x. the (srt x)) (sorted_list_of_set S)"
proof (rule map_sorted_distinct_set_unique [where f = "\<lambda>x. the (srt x)"])
  show "inj_on (\<lambda>x. the (srt x))
     (set (sort_key (\<lambda>x. the (srt x)) xs) \<union> set (sort_key (\<lambda>x. the (srt x)) (sorted_list_of_set S)))"
    using assms by simp
  show "distinct (map (\<lambda>x. the (srt x)) (sort_key (\<lambda>x. the (srt x)) xs))"
    using assms by (simp add: distinct_map)
  show "distinct (map (\<lambda>x. the (srt x)) (sort_key (\<lambda>x. the (srt x)) (sorted_list_of_set S)))"
    using assms by (simp add: distinct_map)
qed (use assms in simp_all)

lemma list_index_Inr: "list_index xs i = Inr p \<Longrightarrow> p < length xs \<and> xs ! p = i \<and> i \<notin> set (take p xs)"
  by (induction xs arbitrary: p) (auto split: if_splits sum.splits)

lemma list_index_mem: "i \<in> set xs \<Longrightarrow> \<exists>p. list_index xs i = Inr p"
  by (induction xs) auto

text \<open>In a list sorted strictly by key, the position of an element counts the smaller keys.\<close>

lemma position_card:
  assumes "sorted (map f xs)" and "distinct (map f xs)" and "p < length xs"
  shows "card {y \<in> set xs. f y < f (xs ! p)} = p"
proof -
  have "{y \<in> set xs. f y < f (xs ! p)} = set (take p xs)"
  proof (intro set_eqI iffI)
    fix y assume "y \<in> {y \<in> set xs. f y < f (xs ! p)}"
    then obtain q where q: "q < length xs" "xs ! q = y" "f y < f (xs ! p)"
      by (auto simp: in_set_conv_nth)
    have "q < p"
    proof (rule ccontr)
      assume "\<not> q < p"
      then have "p \<le> q" by simp
      with assms(1) q(1) have "map f xs ! p \<le> map f xs ! q"
        by (intro sorted_nth_mono) auto
      with q assms(3) show False by simp
    qed
    with q show "y \<in> set (take p xs)" by (auto simp: in_set_conv_nth)
  next
    fix y assume "y \<in> set (take p xs)"
    then obtain q where q: "q < p" "xs ! q = y"
      using assms(3) by (auto simp: in_set_conv_nth)
    from assms q have "map f xs ! q \<le> map f xs ! p"
      by (intro sorted_nth_mono) auto
    moreover from assms q have "map f xs ! q \<noteq> map f xs ! p"
      using nth_eq_iff_index_eq [of "map f xs" q p] by simp
    moreover have "y \<in> set xs"
      using q assms(3) by (metis less_trans nth_mem)
    ultimately show "y \<in> {y \<in> set xs. f y < f (xs ! p)}"
      using q assms(3) by simp
  qed
  moreover have "distinct (take p xs)" using assms(2) by (simp add: distinct_map)
  ultimately show ?thesis using assms(3) by (simp add: distinct_card)
qed

subsection \<open>Multiplying by a single generator\<close>

text \<open>
  C7.  For \<open>a = {x}\<close> and a nonempty finite \<open>b\<close> that does not contain \<open>x\<close>, all elements
  ranked, \<^verbatim>\<open>product_on_basis(a, b)\<close> is \<open>(-1)^p\<close> times \<^verbatim>\<open>subset_image(b \<union> {x})\<close>, where
  \<open>p\<close> is the zero-based position of \<open>x\<close> in the ascending-rank sorting of \<open>b \<union> {x}\<close>, which
  is the number of elements of \<open>b\<close> of smaller rank.  The product raises or fails to return
  exactly as \<^verbatim>\<open>subset_image\<close> does.
\<close>

theorem product_on_basis_singleton:
  assumes "finite b" and "b \<noteq> {}" and "x \<notin> b"
    and "insert x b \<subseteq> dom (self_sorting st)"
    and "inj_on (rank_of st) (insert x b)"
  shows "\<exists>Ss p. sorted_by_rank (self_sorting st) (insert x b) = Inr Ss
           \<and> p < length Ss \<and> Ss ! p = x \<and> p = card {y \<in> b. rank_of st y < rank_of st x}
           \<and> product_on_basis_fuel (Suc n) st {x} b
               = map_option (map_sum id (scale ((- 1) ^ p))) (subset_image_fuel n st (insert x b))"
proof -
  let ?f = "\<lambda>x. the (self_sorting st x)"
  define Ss where "Ss = sort_key ?f (sorted_list_of_set (insert x b))"
  have fin: "finite (insert x b)" using assms(1) by simp
  have sb: "sorted_by_rank (self_sorting st) (insert x b) = Inr Ss"
    unfolding Ss_def using fin assms(4) by (rule sorted_by_rank_ranked)
  note props = sorted_by_rank_Inr [OF sb fin]
  have "x \<in> set Ss" using props(1) by simp
  then obtain p where p: "list_index Ss x = Inr p" using list_index_mem by fastforce
  then have p': "p < length Ss" "Ss ! p = x" using list_index_Inr by fastforce+
  have f: "?f = rank_of st" by (simp add: rank_of_def fun_eq_iff)
  have "distinct (map ?f Ss)"
    using props(1,2) assms(5) by (simp add: distinct_map f)
  from position_card [OF props(3) this p'(1)]
  have "card {y \<in> insert x b. rank_of st y < rank_of st x} = p"
    using props(1) p'(2) by (simp add: rank_of_def)
  moreover have "{y \<in> insert x b. rank_of st y < rank_of st x} = {y \<in> b. rank_of st y < rank_of st x}"
    by auto
  ultimately have card: "p = card {y \<in> b. rank_of st y < rank_of st x}" by simp
  have "product_on_basis_fuel (Suc n) st {x} b
          = map_option (map_sum id (scale ((- 1) ^ p))) (subset_image_fuel n st (insert x b))"
    using assms(2,3) sb p
    by (auto simp: Let_def split: option.splits sum.splits)
  with sb p' card show ?thesis by blast
qed

theorem product_on_basis_singleton_witness:
  "finite {2::nat, 3} \<and> {2::nat, 3} \<noteq> {} \<and> (4::nat) \<notin> {2, 3}
   \<and> insert 4 {2, 3} \<subseteq> dom (self_sorting diamond_algebra)
   \<and> inj_on (rank_of diamond_algebra) (insert 4 {2, 3})
   \<and> (\<exists>Ss p. sorted_by_rank (self_sorting diamond_algebra) (insert 4 {2, 3}) = Inr Ss
           \<and> p < length Ss \<and> Ss ! p = 4
           \<and> p = card {y \<in> {2, 3}. rank_of diamond_algebra y < rank_of diamond_algebra 4}
           \<and> (product_on_basis_fuel (Suc 2) diamond_algebra {4} {2, 3} :: (nat, int) element outcome)
               = map_option (map_sum id (scale ((- 1) ^ p)))
                   (subset_image_fuel 2 diamond_algebra (insert 4 {2, 3})))"
proof -
  have dom: "insert 4 {2, 3} \<subseteq> dom (self_sorting diamond_algebra)"
    by (simp add: diamond_algebra_def dom_sorting_of)
  have inj: "inj_on (rank_of diamond_algebra) (insert 4 {2, 3})"
    by (simp add: diamond_algebra_def rank_of_def sorting_of_def)
  have "finite {2::nat, 3}" "{2::nat, 3} \<noteq> {}" "(4::nat) \<notin> {2, 3}" by simp_all
  from product_on_basis_singleton [OF this dom inj, of 2] this dom inj
  show ?thesis by blast
qed

subsection \<open>Arithmetic of elements\<close>

lemma keys_set_coefficient: "fst ` set (set_coefficient x m c) \<subseteq> insert m (fst ` set x)"
  by (auto simp: set_coefficient_def AList.delete_eq dom_update)

lemma keys_add_aux:
  "fst ` set (fold (\<lambda>(m, c) r. set_coefficient r m (coefficient r m + c)) y x)
     \<subseteq> fst ` set x \<union> fst ` set y"
proof (induction y arbitrary: x)
  case Nil
  then show ?case by simp
next
  case (Cons p y)
  obtain m c where p: "p = (m, c)" by (cases p)
  show ?case
    using Cons.IH [of "set_coefficient x m (coefficient x m + c)"]
      keys_set_coefficient [of x m "coefficient x m + c"]
    by (auto simp: p)
qed

lemma keys_add: "fst ` set (add x y) \<subseteq> fst ` set x \<union> fst ` set y"
  unfolding add_def by (rule keys_add_aux)

lemma keys_scale: "fst ` set (scale k x) \<subseteq> fst ` set x"
  by (force simp: scale_def)

lemma distinct_set_coefficient:
  "distinct (map fst x) \<Longrightarrow> distinct (map fst (set_coefficient x m c))"
  by (simp add: set_coefficient_def distinct_update distinct_delete)

lemma distinct_add: "distinct (map fst x) \<Longrightarrow> distinct (map fst (add x y))"
  unfolding add_def
  by (induction y arbitrary: x) (auto simp: distinct_set_coefficient)

lemma distinct_scale: "distinct (map fst x) \<Longrightarrow> distinct (map fst (scale k x))"
proof -
  have "map fst (scale k x) = map fst (filter (\<lambda>(m, c). k * c \<noteq> 0) x)"
    unfolding scale_def by (induction x) auto
  then show "distinct (map fst x) \<Longrightarrow> distinct (map fst (scale k x))"
    by (simp add: distinct_map_filter)
qed

lemma coefficient_set_coefficient:
  "coefficient (set_coefficient x m c) m' = (if m' = m then c else coefficient x m')"
  by (simp add: coefficient_def set_coefficient_def update_conv' delete_conv')

lemma coefficient_absent: "m \<notin> fst ` set x \<Longrightarrow> coefficient x m = 0"
proof -
  assume "m \<notin> fst ` set x"
  then have "map_of x m = None" by (simp add: map_of_eq_None_iff)
  then show ?thesis by (simp add: coefficient_def)
qed

lemma coefficient_Cons:
  "coefficient ((m, c) # y) m' = (if m' = m then c else coefficient y m')"
  by (simp add: coefficient_def)

lemma coefficient_add_aux:
  "distinct (map fst y) \<Longrightarrow>
   coefficient (fold (\<lambda>(m, c) r. set_coefficient r m (coefficient r m + c)) y x) m'
     = coefficient (x :: ('a, 'r::comm_ring_1) element) m' + coefficient y m'"
proof (induction y arbitrary: x)
  case Nil
  then show ?case by (simp add: coefficient_def)
next
  case (Cons p y)
  obtain m c where p: "p = (m, c)" by (cases p)
  from Cons.prems have d: "distinct (map fst y)" and m: "m \<notin> fst ` set y" by (auto simp: p)
  from m have ym: "coefficient y m = 0" by (rule coefficient_absent)
  let ?x' = "set_coefficient x m (coefficient x m + c)"
  have "coefficient (fold (\<lambda>(m, c) r. set_coefficient r m (coefficient r m + c)) (p # y) x) m'
          = coefficient ?x' m' + coefficient y m'"
    using Cons.IH [OF d, of ?x'] by (simp add: p)
  also have "\<dots> = coefficient x m' + coefficient (p # y) m'"
    using ym by (simp add: p coefficient_set_coefficient coefficient_Cons)
  finally show ?case .
qed

lemma coefficient_add:
  "distinct (map fst y) \<Longrightarrow> coefficient (add x y) m = coefficient x m + coefficient y m"
  unfolding add_def by (rule coefficient_add_aux)

lemma coefficient_scale:
  "distinct (map fst x) \<Longrightarrow> coefficient (scale k x) m = k * coefficient x m"
proof (induction x)
  case Nil
  then show ?case by (simp add: scale_def coefficient_def)
next
  case (Cons p x)
  obtain m0 c0 where p: "p = (m0, c0)" by (cases p)
  from Cons.prems have d: "distinct (map fst x)" and m0: "m0 \<notin> fst ` set x" by (auto simp: p)
  have sc: "scale k (p # x) = (if k * c0 \<noteq> 0 then (m0, k * c0) # scale k x else scale k x)"
    by (simp add: scale_def p)
  show ?case
  proof (cases "m = m0")
    case True
    from m0 keys_scale [of k x] have "m0 \<notin> fst ` set (scale k x)" by blast
    then have "coefficient (scale k x) m0 = 0" by (rule coefficient_absent)
    then show ?thesis by (simp add: sc True) (simp add: coefficient_def p)
  next
    case False
    then have "coefficient (scale k (p # x)) m = coefficient (scale k x) m"
      by (simp add: sc) (simp add: coefficient_def)
    moreover from False have "coefficient (p # x) m = coefficient x m"
      by (simp add: coefficient_def p)
    ultimately show ?thesis using Cons.IH [OF d] by simp
  qed
qed

lemma coefficient_zero: "coefficient zero m = 0"
  by (simp add: coefficient_def zero_def)

lemma coefficient_monomial: "coefficient (monomial S) m = (if m = S then 1 else 0)"
  by (simp add: coefficient_def monomial_def)

lemma coefficient_nonzero_key: "coefficient x m \<noteq> 0 \<Longrightarrow> m \<in> fst ` set x"
  by (auto simp: coefficient_def split: option.splits dest: map_of_SomeD intro: rev_image_eqI)

subsection \<open>One rewriting step keeps the cardinality\<close>

lemma symmetric_difference_swap:
  "i \<notin> S \<Longrightarrow> j \<in> S \<Longrightarrow> symmetric_difference S {i, j} = insert i (S - {j})"
  by (auto simp: symmetric_difference_def)

lemma card_swap: "finite S \<Longrightarrow> i \<notin> S \<Longrightarrow> j \<in> S \<Longrightarrow> card (insert i (S - {j})) = card S"
proof -
  assume fin: "finite S" and i: "i \<notin> S" and j: "j \<in> S"
  from fin i have "card (insert i (S - {j})) = Suc (card (S - {j}))" by simp
  also from fin j have "\<dots> = card S" by (rule card_Suc_Diff1)
  finally show ?thesis .
qed

lemma reduce_loop_keys:
  assumes "reduce_loop rec S bc i js (r0, c0) = Some (Inr r)"
    and "\<And>j x. j \<in> set js \<Longrightarrow> j \<in> bc \<Longrightarrow> rec (symmetric_difference S {i, j}) = Some (Inr x)
           \<Longrightarrow> fst ` set x \<subseteq> K"
    and "fst ` set r0 \<subseteq> K"
  shows "fst ` set r \<subseteq> K"
  using assms
proof (induction js arbitrary: r0 c0)
  case Nil
  then show ?case by simp
next
  case (Cons j js)
  show ?case
  proof (cases "j \<in> bc")
    case False
    with Cons.prems(1) have loop: "reduce_loop rec S bc i js (r0, c0 * (- 1)) = Some (Inr r)"
      by simp
    show ?thesis
    proof (rule Cons.IH [OF loop _ Cons.prems(3)])
      fix j' x assume "j' \<in> set js" "j' \<in> bc" "rec (symmetric_difference S {i, j'}) = Some (Inr x)"
      then show "fst ` set x \<subseteq> K" using Cons.prems(2) [of j' x] by simp
    qed
  next
    case True
    with Cons.prems(1) obtain x where x: "rec (symmetric_difference S {i, j}) = Some (Inr x)"
      and loop: "reduce_loop rec S bc i js (add r0 (scale c0 x), c0 * (- 1)) = Some (Inr r)"
      by (auto split: option.splits sum.splits)
    have "fst ` set x \<subseteq> K" using Cons.prems(2) [of j x] True x by simp
    then have "fst ` set (scale c0 x) \<subseteq> K" by (rule subset_trans [OF keys_scale])
    with Cons.prems(3) have "fst ` set r0 \<union> fst ` set (scale c0 x) \<subseteq> K" by simp
    then have acc: "fst ` set (add r0 (scale c0 x)) \<subseteq> K" by (rule subset_trans [OF keys_add])
    show ?thesis
    proof (rule Cons.IH [OF loop _ acc])
      fix j' x assume "j' \<in> set js" "j' \<in> bc" "rec (symmetric_difference S {i, j'}) = Some (Inr x)"
      then show "fst ` set x \<subseteq> K" using Cons.prems(2) [of j' x] by simp
    qed
  qed
qed

lemma subset_image_keys:
  "subset_image_fuel n st S = Some (Inr (r :: ('a::linorder, 'b::comm_ring_1) element)) \<Longrightarrow> finite S
     \<Longrightarrow> fst ` set r \<subseteq> {m. card m = card S}"
proof (induction n arbitrary: S r)
  case 0
  then show ?case by simp
next
  case (Suc n)
  from Suc.prems(1) obtain Ss where Ss: "sorted_by_rank (self_sorting st) S = Inr Ss"
    by (auto split: sum.splits)
  note props = sorted_by_rank_Inr [OF Ss Suc.prems(2)]
  show ?case
  proof (cases "find (\<lambda>bc. bc \<subseteq> S) (map fst (self_broken_circuits st))")
    case None
    with Suc.prems(1) Ss show ?thesis by (auto simp: monomial_def)
  next
    case (Some bc)
    with Suc.prems(1) Ss obtain i where i: "map_of (self_broken_circuits st) bc = Some i"
      by (auto split: option.splits)
    show ?thesis
    proof (cases "i \<in> S")
      case True
      with Suc.prems(1) Ss Some i show ?thesis by (auto simp: zero_def)
    next
      case False
      with Suc.prems(1) Ss Some i
      have loop: "reduce_loop (\<lambda>T. subset_image_fuel n st T) S bc i Ss (zero, 1) = Some (Inr r)"
        by simp
      show ?thesis
      proof (rule reduce_loop_keys [OF loop])
        show "fst ` set (zero :: ('a, 'b) element) \<subseteq> {m. card m = card S}" by (simp add: zero_def)
      next
        fix j and x :: "('a, 'b) element"
        assume j: "j \<in> set Ss" and x: "subset_image_fuel n st (symmetric_difference S {i, j}) = Some (Inr x)"
        from j props(1) have jS: "j \<in> S" by simp
        have eq: "symmetric_difference S {i, j} = insert i (S - {j})"
          using False jS by (rule symmetric_difference_swap)
        have "finite (symmetric_difference S {i, j})" using Suc.prems(2) by (simp add: eq)
        from Suc.IH [OF x this] show "fst ` set x \<subseteq> {m. card m = card S}"
          using card_swap [OF Suc.prems(2) False jS] by (simp add: eq)
      qed
    qed
  qed
qed

lemma reduce_loop_distinct:
  "reduce_loop rec S bc i js (r0, c0) = Some (Inr r) \<Longrightarrow> distinct (map fst r0) \<Longrightarrow> distinct (map fst r)"
proof (induction js arbitrary: r0 c0)
  case Nil
  then show ?case by simp
next
  case (Cons j js)
  show ?case
  proof (cases "j \<in> bc")
    case False
    with Cons.prems(1) have "reduce_loop rec S bc i js (r0, c0 * (- 1)) = Some (Inr r)" by simp
    from Cons.IH [OF this Cons.prems(2)] show ?thesis .
  next
    case True
    with Cons.prems(1) obtain x where
      "reduce_loop rec S bc i js (add r0 (scale c0 x), c0 * (- 1)) = Some (Inr r)"
      by (auto split: option.splits sum.splits)
    from Cons.IH [OF this distinct_add [OF Cons.prems(2)]] show ?thesis .
  qed
qed

lemma subset_image_distinct:
  "subset_image_fuel n st S = Some (Inr r) \<Longrightarrow> distinct (map fst r)"
proof (cases n)
  case 0
  assume "subset_image_fuel n st S = Some (Inr r)"
  with 0 show ?thesis by simp
next
  case (Suc k)
  assume r: "subset_image_fuel n st S = Some (Inr r)"
  then obtain Ss where Ss: "sorted_by_rank (self_sorting st) S = Inr Ss"
    unfolding Suc by (auto split: sum.splits)
  show ?thesis
  proof (cases "find (\<lambda>bc. bc \<subseteq> S) (map fst (self_broken_circuits st))")
    case None
    with r Ss show ?thesis unfolding Suc by (auto simp: monomial_def)
  next
    case (Some bc)
    with r Ss obtain i where i: "map_of (self_broken_circuits st) bc = Some i"
      unfolding Suc by (auto split: option.splits)
    show ?thesis
    proof (cases "i \<in> S")
      case True
      with r Ss Some i show ?thesis unfolding Suc by (auto simp: zero_def)
    next
      case False
      with r Ss Some i
      have "reduce_loop (\<lambda>T. subset_image_fuel k st T) S bc i Ss (zero, 1) = Some (Inr r)"
        unfolding Suc by simp
      then show ?thesis by (rule reduce_loop_distinct) (simp add: zero_def)
    qed
  qed
qed

text \<open>
  C10.  When \<^verbatim>\<open>subset_image(S)\<close> returns for a finite \<open>S\<close>, every basis index stored in the
  result, and so every index with a nonzero coefficient, has the cardinality of \<open>S\<close>.
\<close>

theorem subset_image_degree:
  assumes "subset_image_fuel n st S = Some (Inr r)" and "finite S"
  shows "(\<forall>(m, c) \<in> set r. card m = card S) \<and> (\<forall>m. coefficient r m \<noteq> 0 \<longrightarrow> card m = card S)"
proof -
  from subset_image_keys [OF assms] have keys: "fst ` set r \<subseteq> {m. card m = card S}" .
  have "card m = card S" if "(m, c) \<in> set r" for m c
  proof -
    from that have "m \<in> fst ` set r" by (rule image_eqI [rotated]) simp
    with keys show ?thesis by blast
  qed
  moreover have "card m = card S" if "coefficient r m \<noteq> 0" for m
    using keys coefficient_nonzero_key [OF that] by blast
  ultimately show ?thesis by blast
qed

lemma subset_image_diamond_234:
  "(subset_image_fuel 3 diamond_algebra {2, 3, 4} :: (nat, int) element outcome)
     = Some (Inr [({0, 3, 4}, 1), ({0, 1, 4}, 1), ({0, 1, 2}, - 1), ({0, 2, 3}, 1)])"
  by code_simp

theorem subset_image_degree_witness:
  "(subset_image_fuel 3 diamond_algebra {2, 3, 4} :: (nat, int) element outcome)
     = Some (Inr [({0, 3, 4}, 1), ({0, 1, 4}, 1), ({0, 1, 2}, - 1), ({0, 2, 3}, 1)])
   \<and> finite {2::nat, 3, 4}
   \<and> ({0, 1, 4}, 1) \<in> set [({0, 3, 4}, 1::int), ({0, 1, 4}, 1), ({0, 1, 2}, - 1), ({0::nat, 2, 3}, 1)]
   \<and> card {0::nat, 1, 4} = card {2::nat, 3, 4}
   \<and> coefficient [({0, 3, 4}, 1::int), ({0, 1, 4}, 1), ({0, 1, 2}, - 1), ({0::nat, 2, 3}, 1)] {0, 1, 2} \<noteq> 0
   \<and> card {0::nat, 1, 2} = card {2::nat, 3, 4}"
proof -
  have fin: "finite {2::nat, 3, 4}" by simp
  have mem: "({0, 1, 4}, 1) \<in> set [({0, 3, 4}, 1::int), ({0, 1, 4}, 1), ({0, 1, 2}, - 1), ({0::nat, 2, 3}, 1)]"
    by simp
  have nz: "coefficient [({0, 3, 4}, 1::int), ({0, 1, 4}, 1), ({0, 1, 2}, - 1), ({0::nat, 2, 3}, 1)] {0, 1, 2} \<noteq> 0"
    by code_simp
  note concl = subset_image_degree [OF subset_image_diamond_234 fin]
  from concl mem have 1: "card {0::nat, 1, 4} = card {2::nat, 3, 4}" by fast
  from concl nz have 2: "card {0::nat, 1, 2} = card {2::nat, 3, 4}" by fast
  show ?thesis
    by (rule conjI [OF subset_image_diamond_234 conjI [OF fin conjI [OF mem conjI [OF 1 conjI [OF nz 2]]]]])
qed

subsection \<open>The table of broken circuits that \<open>init\<close> builds\<close>

lemma sorted_list_of_set_infinite: "\<not> finite A \<Longrightarrow> sorted_list_of_set A = []"
  by (rule sorted_list_of_set.fold_insort_key.infinite)

lemma sorted_by_rank_Cons:
  assumes "sorted_by_rank srt c = Inr (i # rest)"
  shows "finite c" and "c = insert i (set rest)" and "i \<notin> set rest" and "c \<subseteq> dom srt"
    and "\<forall>x\<in>set rest. the (srt i) \<le> the (srt x)"
proof -
  show fin: "finite c"
  proof (rule ccontr)
    assume "\<not> finite c"
    then have "sorted_list_of_set c = []" by (rule sorted_list_of_set_infinite)
    with assms show False by (simp add: sorted_by_rank_def split: if_splits)
  qed
  note props = sorted_by_rank_Inr [OF assms fin]
  from props(1) show "c = insert i (set rest)" by simp
  from props(2) show "i \<notin> set rest" by simp
  from props(5) show "c \<subseteq> dom srt" .
  from props(3) show "\<forall>x\<in>set rest. the (srt i) \<le> the (srt x)" by simp
qed

lemma add_circuit_Inr:
  "add_circuit srt c tbl = Inr tbl' \<Longrightarrow>
   \<exists>i rest. sorted_by_rank srt c = Inr (i # rest) \<and> tbl' = AList.update (set rest) i tbl"
  by (auto simp: add_circuit_def split: sum.splits list.splits)

lemma set_update_subset: "set (AList.update k v al) \<subseteq> insert (k, v) (set al)"
  by (induction al) auto

lemma build_table_entries:
  "build_table srt cs tbl = Inr tbl' \<Longrightarrow> (bc, i) \<in> set tbl' \<Longrightarrow>
   (bc, i) \<in> set tbl \<or> (\<exists>c\<in>set cs. \<exists>rest. sorted_by_rank srt c = Inr (i # rest) \<and> bc = set rest)"
proof (induction cs arbitrary: tbl)
  case Nil
  then show ?case by simp
next
  case (Cons c cs)
  from Cons.prems(1) obtain tbl1 where t1: "add_circuit srt c tbl = Inr tbl1"
    and rest: "build_table srt cs tbl1 = Inr tbl'"
    by (auto split: sum.splits)
  from add_circuit_Inr [OF t1] obtain i0 rest0 where
    c: "sorted_by_rank srt c = Inr (i0 # rest0)" and tbl1: "tbl1 = AList.update (set rest0) i0 tbl"
    by blast
  from Cons.IH [OF rest Cons.prems(2)] show ?case
  proof
    assume "(bc, i) \<in> set tbl1"
    with set_update_subset [of "set rest0" i0 tbl] have "(bc, i) = (set rest0, i0) \<or> (bc, i) \<in> set tbl"
      unfolding tbl1 by blast
    with c show ?thesis by auto
  next
    assume "\<exists>c\<in>set cs. \<exists>rest. sorted_by_rank srt c = Inr (i # rest) \<and> bc = set rest"
    then show ?thesis by auto
  qed
qed

lemma build_table_keys_mono:
  "build_table srt cs tbl = Inr tbl' \<Longrightarrow> fst ` set tbl \<subseteq> fst ` set tbl'"
proof (induction cs arbitrary: tbl)
  case Nil
  then show ?case by simp
next
  case (Cons c cs)
  from Cons.prems(1) obtain tbl1 where t1: "add_circuit srt c tbl = Inr tbl1"
    and rest: "build_table srt cs tbl1 = Inr tbl'"
    by (auto split: sum.splits)
  from add_circuit_Inr [OF t1] obtain i0 rest0 where tbl1: "tbl1 = AList.update (set rest0) i0 tbl"
    by blast
  have "fst ` set tbl \<subseteq> fst ` set tbl1" unfolding tbl1 dom_update by (rule Un_upper2)
  also have "\<dots> \<subseteq> fst ` set tbl'" by (rule Cons.IH [OF rest])
  finally show ?case .
qed

lemma build_table_keys:
  "build_table srt cs tbl = Inr tbl' \<Longrightarrow> c \<in> set cs \<Longrightarrow>
   \<exists>i rest. sorted_by_rank srt c = Inr (i # rest) \<and> set rest \<in> fst ` set tbl'"
proof (induction cs arbitrary: tbl)
  case Nil
  then show ?case by simp
next
  case (Cons c0 cs)
  from Cons.prems(1) obtain tbl1 where t1: "add_circuit srt c0 tbl = Inr tbl1"
    and rest: "build_table srt cs tbl1 = Inr tbl'"
    by (auto split: sum.splits)
  show ?case
  proof (cases "c = c0")
    case True
    from add_circuit_Inr [OF t1] obtain i0 rest0 where
      c: "sorted_by_rank srt c0 = Inr (i0 # rest0)" and tbl1: "tbl1 = AList.update (set rest0) i0 tbl"
      by blast
    have "set rest0 \<in> fst ` set tbl1" unfolding tbl1 dom_update by simp
    with build_table_keys_mono [OF rest] have "set rest0 \<in> fst ` set tbl'" by (rule subsetD)
    with c True show ?thesis by blast
  next
    case False
    with Cons.prems(2) have "c \<in> set cs" by simp
    from Cons.IH [OF rest this] show ?thesis .
  qed
qed

lemma init_Inr:
  assumes "init M ordr = Inr st"
  shows "\<exists>ord. self_sorting st = sorting_of ord
           \<and> build_table (sorting_of ord) (circuits M) [] = Inr (self_broken_circuits st)"
  using assms by (auto simp: init_def Let_def split: sum.splits)

lemma init_rank_inj:
  assumes "init M ordr = Inr st"
  shows "inj_on (rank_of st) (dom (self_sorting st))"
proof -
  from init_Inr [OF assms] obtain ord where "self_sorting st = sorting_of ord" by blast
  then show ?thesis
    using sorting_of_inj_on [of "dom (sorting_of ord)" ord] by (simp add: rank_of_def [abs_def])
qed

text \<open>
  Every entry of the table comes from a circuit: the key and the value make up the circuit,
  and the value has a strictly smaller rank than every element of the key.
\<close>

lemma init_table_entry:
  assumes "init M ordr = Inr st" and "(bc, i) \<in> set (self_broken_circuits st)"
  shows "insert i bc \<in> set (circuits M)" and "i \<notin> bc" and "finite bc"
    and "insert i bc \<subseteq> dom (self_sorting st)" and "\<forall>x\<in>bc. rank_of st i < rank_of st x"
proof -
  from init_Inr [OF assms(1)] obtain ord where srt: "self_sorting st = sorting_of ord"
    and tbl: "build_table (sorting_of ord) (circuits M) [] = Inr (self_broken_circuits st)"
    by blast
  from build_table_entries [OF tbl assms(2)] obtain c rest where c: "c \<in> set (circuits M)"
    and sorted: "sorted_by_rank (sorting_of ord) c = Inr (i # rest)" and bc: "bc = set rest"
    by auto
  note props = sorted_by_rank_Cons [OF sorted]
  from props(2) c show "insert i bc \<in> set (circuits M)" by (simp add: bc)
  from props(3) show "i \<notin> bc" by (simp add: bc)
  show "finite bc" by (simp add: bc)
  from props(2,4) show dom: "insert i bc \<subseteq> dom (self_sorting st)" by (simp add: bc srt)
  show "\<forall>x\<in>bc. rank_of st i < rank_of st x"
  proof
    fix x assume x: "x \<in> bc"
    with props(5) have le: "rank_of st i \<le> rank_of st x" by (simp add: bc srt rank_of_def)
    from x props(3) have "x \<noteq> i" by (auto simp: bc)
    moreover from x dom have "x \<in> dom (self_sorting st)" "i \<in> dom (self_sorting st)" by auto
    ultimately have "rank_of st i \<noteq> rank_of st x"
      using init_rank_inj [OF assms(1)] by (auto dest: inj_onD)
    with le show "rank_of st i < rank_of st x" by simp
  qed
qed

text \<open>Every circuit has its broken circuit among the keys of the table.\<close>

lemma init_circuit_key:
  assumes "init M ordr = Inr st" and "c \<in> set (circuits M)"
  shows "\<exists>bc \<in> fst ` set (self_broken_circuits st). bc \<subseteq> c" and "finite c"
    and "c \<subseteq> dom (self_sorting st)"
proof -
  from init_Inr [OF assms(1)] obtain ord where srt: "self_sorting st = sorting_of ord"
    and tbl: "build_table (sorting_of ord) (circuits M) [] = Inr (self_broken_circuits st)"
    by blast
  from build_table_keys [OF tbl assms(2)] obtain i rest where
    sorted: "sorted_by_rank (sorting_of ord) c = Inr (i # rest)"
    and key: "set rest \<in> fst ` set (self_broken_circuits st)"
    by blast
  note props = sorted_by_rank_Cons [OF sorted]
  from props(2) have "set rest \<subseteq> c" by auto
  with key show "\<exists>bc \<in> fst ` set (self_broken_circuits st). bc \<subseteq> c" by blast
  from props(1) show "finite c" .
  from props(4) show "c \<subseteq> dom (self_sorting st)" by (simp add: srt)
qed

subsection \<open>Termination of \<^verbatim>\<open>subset_image\<close>\<close>

lemma rank_sum_swap:
  assumes "finite S" and "i \<notin> S" and "j \<in> S" and "rank_of st i < rank_of st j"
  shows "rank_sum st (insert i (S - {j})) < rank_sum st S"
proof -
  have "rank_sum st (insert i (S - {j})) = rank_of st i + rank_sum st (S - {j})"
    using assms(1,2) by (simp add: rank_sum_def)
  moreover have "rank_sum st S = rank_of st j + rank_sum st (S - {j})"
    using assms(1,3) by (simp add: rank_sum_def sum.remove)
  ultimately show ?thesis using assms(4) by simp
qed

lemma find_key_Some:
  assumes "find (\<lambda>bc. bc \<subseteq> S) (map fst tbl) = Some bc"
  shows "bc \<subseteq> S" and "\<exists>i. map_of tbl bc = Some i \<and> (bc, i) \<in> set tbl"
proof -
  from assms obtain k where k: "k < length (map fst tbl)" "map fst tbl ! k \<subseteq> S" "bc = map fst tbl ! k"
    unfolding find_Some_iff by blast
  from k(2,3) show "bc \<subseteq> S" by simp
  from k(1,3) have "bc \<in> set (map fst tbl)" using nth_mem by blast
  then have "map_of tbl bc \<noteq> None" by (simp add: map_of_eq_None_iff)
  then obtain i where "map_of tbl bc = Some i" by blast
  then show "\<exists>i. map_of tbl bc = Some i \<and> (bc, i) \<in> set tbl"
    using map_of_SomeD by fastforce
qed

lemma find_key_exists:
  assumes "bc \<in> fst ` set tbl" and "bc \<subseteq> S"
  shows "\<exists>bc'. find (\<lambda>bc. bc \<subseteq> S) (map fst tbl) = Some bc'"
proof (cases "find (\<lambda>bc. bc \<subseteq> S) (map fst tbl)")
  case None
  then have "\<not> (\<exists>x. x \<in> set (map fst tbl) \<and> x \<subseteq> S)" unfolding find_None_iff .
  with assms show ?thesis by auto
next
  case (Some a)
  then show ?thesis by simp
qed

lemma reduce_loop_returns:
  assumes "\<And>j. j \<in> set js \<Longrightarrow> j \<in> bc \<Longrightarrow> \<exists>x. rec (symmetric_difference S {i, j}) = Some (Inr x)"
  shows "\<exists>r. reduce_loop rec S bc i js (r0, c0) = Some (Inr r)"
  using assms
proof (induction js arbitrary: r0 c0)
  case Nil
  then show ?case by simp
next
  case (Cons j js)
  have rest: "\<exists>r. reduce_loop rec S bc i js (r1, c1) = Some (Inr r)" for r1 c1
  proof (rule Cons.IH)
    fix j' assume "j' \<in> set js" "j' \<in> bc"
    then show "\<exists>x. rec (symmetric_difference S {i, j'}) = Some (Inr x)"
      using Cons.prems [of j'] by simp
  qed
  show ?case
  proof (cases "j \<in> bc")
    case False
    with rest [of r0 "c0 * (- 1)"] show ?thesis by simp
  next
    case True
    with Cons.prems [of j] obtain x where "rec (symmetric_difference S {i, j}) = Some (Inr x)"
      by auto
    with True rest [of "add r0 (scale c0 x)" "c0 * (- 1)"] show ?thesis by simp
  qed
qed

lemma subset_image_returns_aux:
  assumes init: "init M ordr = Inr st"
  shows "finite S \<Longrightarrow> S \<subseteq> dom (self_sorting st) \<Longrightarrow> rank_sum st S < n
     \<Longrightarrow> \<exists>r :: ('a::linorder, 'r::comm_ring_1) element. subset_image_fuel n st S = Some (Inr r)"
proof (induction n arbitrary: S)
  case 0
  then show ?case by simp
next
  case (Suc n)
  note Ss = sorted_by_rank_ranked [OF Suc.prems(1,2)]
  have setSs: "set (sort_key (\<lambda>x. the (self_sorting st x)) (sorted_list_of_set S)) = S"
    using Suc.prems(1) by simp
  show ?case
  proof (cases "find (\<lambda>bc. bc \<subseteq> S) (map fst (self_broken_circuits st))")
    case None
    with Ss show ?thesis by simp
  next
    case (Some bc)
    from find_key_Some [OF Some] obtain i where bcS: "bc \<subseteq> S"
      and i: "map_of (self_broken_circuits st) bc = Some i"
      and entry: "(bc, i) \<in> set (self_broken_circuits st)"
      by blast
    note entry_props = init_table_entry [OF init entry]
    show ?thesis
    proof (cases "i \<in> S")
      case True
      with Ss Some i show ?thesis by simp
    next
      case False
      have "\<exists>r :: ('a, 'r) element. reduce_loop (\<lambda>T. subset_image_fuel n st T) S bc i
              (sort_key (\<lambda>x. the (self_sorting st x)) (sorted_list_of_set S)) (zero, 1) = Some (Inr r)"
      proof (rule reduce_loop_returns)
        fix j assume "j \<in> set (sort_key (\<lambda>x. the (self_sorting st x)) (sorted_list_of_set S))"
          and jbc: "j \<in> bc"
        with setSs have jS: "j \<in> S" by simp
        have eq: "symmetric_difference S {i, j} = insert i (S - {j})"
          using False jS by (rule symmetric_difference_swap)
        from entry_props(5) jbc have "rank_of st i < rank_of st j" by blast
        from rank_sum_swap [OF Suc.prems(1) False jS this] Suc.prems(3)
        have less: "rank_sum st (insert i (S - {j})) < n" by simp
        have fin: "finite (insert i (S - {j}))" using Suc.prems(1) by simp
        have dom: "insert i (S - {j}) \<subseteq> dom (self_sorting st)"
          using entry_props(4) Suc.prems(2) by blast
        from Suc.IH [OF fin dom less]
        show "\<exists>x :: ('a, 'r) element. subset_image_fuel n st (symmetric_difference S {i, j}) = Some (Inr x)"
          by (simp add: eq)
      qed
      with Ss Some i False show ?thesis by simp
    qed
  qed
qed

lemma reduce_loop_mono:
  assumes "\<And>T v. rec T = Some v \<Longrightarrow> rec' T = Some v"
  shows "reduce_loop rec S bc i js (r0, c0) = Some v \<Longrightarrow> reduce_loop rec' S bc i js (r0, c0) = Some v"
proof (induction js arbitrary: r0 c0)
  case Nil
  then show ?case by simp
next
  case (Cons j js)
  show ?case
  proof (cases "j \<in> bc")
    case False
    with Cons.prems have "reduce_loop rec S bc i js (r0, c0 * (- 1)) = Some v" by simp
    from Cons.IH [OF this] False show ?thesis by simp
  next
    case True
    show ?thesis
    proof (cases "rec (symmetric_difference S {i, j})")
      case None
      with True Cons.prems show ?thesis by simp
    next
      case (Some w)
      note w' = assms [OF Some]
      show ?thesis
      proof (cases w)
        case (Inl e)
        with True Some Cons.prems have "v = Inl e" by simp
        with True w' Inl show ?thesis by simp
      next
        case (Inr x)
        with True Some Cons.prems
        have "reduce_loop rec S bc i js (add r0 (scale c0 x), c0 * (- 1)) = Some v" by simp
        from Cons.IH [OF this] True w' Inr show ?thesis by simp
      qed
    qed
  qed
qed

lemma subset_image_fuel_loop:
  assumes "sorted_by_rank (self_sorting st) S = Inr Ss"
    and "find (\<lambda>bc. bc \<subseteq> S) (map fst (self_broken_circuits st)) = Some bc"
    and "map_of (self_broken_circuits st) bc = Some i" and "i \<notin> S"
  shows "subset_image_fuel (Suc n) st S
           = reduce_loop (\<lambda>T. subset_image_fuel n st T) S bc i Ss (zero, 1)"
  using assms by simp

lemma subset_image_fuel_Suc:
  "subset_image_fuel n st S = Some v \<Longrightarrow> subset_image_fuel (Suc n) st S = Some v"
proof (induction n arbitrary: S v)
  case 0
  then show ?case by simp
next
  case (Suc n)
  show ?case
  proof (cases "sorted_by_rank (self_sorting st) S")
    case (Inl e)
    with Suc.prems show ?thesis by simp
  next
    case (Inr Ss)
    show ?thesis
    proof (cases "find (\<lambda>bc. bc \<subseteq> S) (map fst (self_broken_circuits st))")
      case None
      with Inr Suc.prems show ?thesis by simp
    next
      case (Some bc)
      show ?thesis
      proof (cases "map_of (self_broken_circuits st) bc")
        case None
        with Inr Some Suc.prems show ?thesis by simp
      next
        case i: (Some i)
        show ?thesis
        proof (cases "i \<in> S")
          case True
          with Inr Some i Suc.prems show ?thesis by simp
        next
          case False
          note unfold = subset_image_fuel_loop [OF Inr Some i False]
          from Suc.prems
          have "reduce_loop (\<lambda>T. subset_image_fuel n st T) S bc i Ss (zero, 1) = Some v"
            by (simp only: unfold)
          then have "reduce_loop (\<lambda>T. subset_image_fuel (Suc n) st T) S bc i Ss (zero, 1) = Some v"
            by (rule reduce_loop_mono [rotated]) (rule Suc.IH)
          then show ?thesis by (simp only: unfold)
        qed
      qed
    qed
  qed
qed

lemma subset_image_fuel_add:
  "subset_image_fuel n st S = Some v \<Longrightarrow> subset_image_fuel (n + k) st S = Some v"
proof (induction k)
  case 0
  then show ?case by simp
next
  case (Suc k)
  from subset_image_fuel_Suc [OF Suc.IH [OF Suc.prems]] show ?case by (simp only: add_Suc_right)
qed

lemma subset_image_fuel_le:
  assumes "n \<le> m" and "subset_image_fuel n st S = Some v"
  shows "subset_image_fuel m st S = Some v"
proof -
  from assms(1) obtain k where "m = n + k" using le_Suc_ex by blast
  with subset_image_fuel_add [OF assms(2), of k] show ?thesis by (simp only:)
qed

lemma subset_image_returns:
  assumes "init M ordr = Inr st" and "finite S" and "S \<subseteq> dom (self_sorting st)"
  shows "\<exists>r :: ('a::linorder, 'r::comm_ring_1) element.
           \<forall>n > rank_sum st S. subset_image_fuel n st S = Some (Inr r)"
proof -
  from subset_image_returns_aux [OF assms, of "Suc (rank_sum st S)"]
  obtain r :: "('a, 'r) element" where
    r: "subset_image_fuel (Suc (rank_sum st S)) st S = Some (Inr r)"
    by auto
  have "subset_image_fuel n st S = Some (Inr r)" if "n > rank_sum st S" for n
    using that by (intro subset_image_fuel_le [OF _ r]) simp
  then show ?thesis by blast
qed

subsection \<open>The lexicographic order on descending rank lists\<close>

lemma sorted_list_of_set_Un_less:
  assumes "finite B" and "finite C" and "\<forall>b\<in>B. \<forall>c\<in>C. b < c"
  shows "sorted_list_of_set (B \<union> C) = sorted_list_of_set B @ sorted_list_of_set C"
proof (rule sorted_distinct_set_unique)
  show "sorted (sorted_list_of_set (B \<union> C))" by simp
  show "distinct (sorted_list_of_set (B \<union> C))" by simp
  show "sorted (sorted_list_of_set B @ sorted_list_of_set C)"
    using assms by (auto simp: sorted_append intro: less_imp_le)
  show "distinct (sorted_list_of_set B @ sorted_list_of_set C)"
    using assms by auto
  show "set (sorted_list_of_set (B \<union> C)) = set (sorted_list_of_set B @ sorted_list_of_set C)"
    using assms by simp
qed

lemma descending_swap_nat:
  fixes R :: "nat set"
  assumes "finite R" and "rj \<in> R" and "ri \<notin> R" and "ri < rj"
  shows "(rev (sorted_list_of_set (insert ri (R - {rj}))), rev (sorted_list_of_set R))
           \<in> lexord {(a, b). a < b}"
proof -
  define A where "A = {x \<in> R. rj < x}"
  define B where "B = {x \<in> R. x < rj}"
  have fin: "finite A" "finite B" using assms(1) by (simp_all add: A_def B_def)
  have R: "R = B \<union> ({rj} \<union> A)" using assms(2) by (auto simp: A_def B_def)
  have R': "insert ri (R - {rj}) = insert ri B \<union> A" using assms(4) by (auto simp: A_def B_def)
  have "sorted_list_of_set ({rj} \<union> A) = sorted_list_of_set {rj} @ sorted_list_of_set A"
    using fin by (intro sorted_list_of_set_Un_less) (auto simp: A_def)
  then have rjA: "sorted_list_of_set ({rj} \<union> A) = rj # sorted_list_of_set A" by simp
  have "sorted_list_of_set (B \<union> ({rj} \<union> A)) = sorted_list_of_set B @ sorted_list_of_set ({rj} \<union> A)"
    using fin by (intro sorted_list_of_set_Un_less) (auto simp: A_def B_def)
  with R rjA have slR: "sorted_list_of_set R = sorted_list_of_set B @ rj # sorted_list_of_set A"
    by simp
  have "sorted_list_of_set (insert ri B \<union> A) = sorted_list_of_set (insert ri B) @ sorted_list_of_set A"
    using fin assms(4) by (intro sorted_list_of_set_Un_less) (auto simp: A_def B_def)
  with R' have slR': "sorted_list_of_set (insert ri (R - {rj}))
      = sorted_list_of_set (insert ri B) @ sorted_list_of_set A"
    by simp
  have "finite (insert ri B)" using fin by simp
  then have set_eq: "set (rev (sorted_list_of_set (insert ri B))) = insert ri B"
    by (simp only: set_rev set_sorted_list_of_set)
  then obtain y ys where yys: "rev (sorted_list_of_set (insert ri B)) = y # ys"
    by (cases "rev (sorted_list_of_set (insert ri B))") auto
  then have "y \<in> set (rev (sorted_list_of_set (insert ri B)))" by simp
  then have "y \<in> insert ri B" by (simp only: set_eq)
  then have "y < rj" using assms(4) by (auto simp: B_def)
  then have "(rev (sorted_list_of_set (insert ri B)), rj # rev (sorted_list_of_set B))
      \<in> lexord {(a, b). a < b}"
    by (simp add: yys)
  then have "(rev (sorted_list_of_set A) @ rev (sorted_list_of_set (insert ri B)),
      rev (sorted_list_of_set A) @ rj # rev (sorted_list_of_set B)) \<in> lexord {(a, b). a < b}"
    by (rule lexord_append_leftI)
  then show ?thesis by (simp add: slR slR')
qed

lemma descending_ranks_image:
  assumes "finite S" and "inj_on (rank_of st) S"
  shows "descending_ranks st S = rev (sorted_list_of_set (rank_of st ` S))"
proof -
  have "sort (map (rank_of st) (sorted_list_of_set S)) = sorted_list_of_set (rank_of st ` S)"
  proof (rule sorted_distinct_set_unique)
    show "distinct (sort (map (rank_of st) (sorted_list_of_set S)))"
      using assms by (simp add: distinct_map)
    show "set (sort (map (rank_of st) (sorted_list_of_set S))) = set (sorted_list_of_set (rank_of st ` S))"
      using assms by simp
  qed simp_all
  then show ?thesis by (simp add: descending_ranks_def)
qed

lemma descending_ranks_swap:
  assumes "finite S" and "i \<notin> S" and "j \<in> S" and "rank_of st i < rank_of st j"
    and "inj_on (rank_of st) (insert i S)"
  shows "(descending_ranks st (insert i (S - {j})), descending_ranks st S) \<in> lexord {(a, b). a < b}"
proof -
  have inj: "inj_on (rank_of st) S" "inj_on (rank_of st) (insert i (S - {j}))"
    using assms(5) by (auto intro: inj_on_subset)
  have img: "rank_of st ` insert i (S - {j}) = insert (rank_of st i) (rank_of st ` S - {rank_of st j})"
    using assms(3) inj_on_image_set_diff [OF assms(5), of S "{j}"] by auto
  have notin: "rank_of st i \<notin> rank_of st ` S"
    using assms(2,5) by (auto dest: inj_onD)
  have lex: "(rev (sorted_list_of_set (insert (rank_of st i) (rank_of st ` S - {rank_of st j}))),
         rev (sorted_list_of_set (rank_of st ` S))) \<in> lexord {(a, b). a < b}"
    using assms(1,3,4) notin by (intro descending_swap_nat) auto
  have d1: "descending_ranks st S = rev (sorted_list_of_set (rank_of st ` S))"
    by (rule descending_ranks_image [OF assms(1) inj(1)])
  have "finite (insert i (S - {j}))" using assms(1) by simp
  then have d2: "descending_ranks st (insert i (S - {j}))
      = rev (sorted_list_of_set (rank_of st ` insert i (S - {j})))"
    using inj(2) by (rule descending_ranks_image)
  show ?thesis unfolding d1 d2 img by (rule lex)
qed

text \<open>
  C3.  For an algebra that \<open>init\<close> has built, ranks are injective, the element recorded for
  a broken circuit has strictly smaller rank than every element of the broken circuit, each
  argument of a recursive call in the rewrite branch is smaller than \<open>S\<close> in the
  lexicographic order on descending rank lists (and has a smaller rank sum), and for every
  finite set \<open>S\<close> of ranked elements \<^verbatim>\<open>subset_image(S)\<close> returns: one and the same value
  at every depth bound above the rank sum of \<open>S\<close>.
\<close>

theorem subset_image_terminates:
  assumes "init M ordr = Inr st" and "finite S" and "S \<subseteq> dom (self_sorting st)"
  shows "inj_on (rank_of st) (dom (self_sorting st))
     \<and> (\<forall>(bc, i) \<in> set (self_broken_circuits st). \<forall>x\<in>bc. rank_of st i < rank_of st x)
     \<and> (\<forall>(bc, i) \<in> set (self_broken_circuits st). bc \<subseteq> S \<longrightarrow> i \<notin> S \<longrightarrow>
          (\<forall>j\<in>bc. (descending_ranks st (symmetric_difference S {i, j}), descending_ranks st S)
                      \<in> lexord {(a, b). a < b}
                  \<and> rank_sum st (symmetric_difference S {i, j}) < rank_sum st S))
     \<and> (\<exists>r :: ('a::linorder, 'r::comm_ring_1) element.
           \<forall>n > rank_sum st S. subset_image_fuel n st S = Some (Inr r))"
proof (intro conjI)
  show inj: "inj_on (rank_of st) (dom (self_sorting st))" by (rule init_rank_inj [OF assms(1)])
  show "\<forall>(bc, i) \<in> set (self_broken_circuits st). \<forall>x\<in>bc. rank_of st i < rank_of st x"
    using init_table_entry(5) [OF assms(1)] by fast
  show "\<forall>(bc, i) \<in> set (self_broken_circuits st). bc \<subseteq> S \<longrightarrow> i \<notin> S \<longrightarrow>
          (\<forall>j\<in>bc. (descending_ranks st (symmetric_difference S {i, j}), descending_ranks st S)
                      \<in> lexord {(a, b). a < b}
                  \<and> rank_sum st (symmetric_difference S {i, j}) < rank_sum st S)"
  proof (intro ballI, clarify)
    fix bc i j
    assume entry: "(bc, i) \<in> set (self_broken_circuits st)" and bcS: "bc \<subseteq> S" and i: "i \<notin> S"
      and j: "j \<in> bc"
    note props = init_table_entry [OF assms(1) entry]
    from j bcS have jS: "j \<in> S" by blast
    from props(5) j have less: "rank_of st i < rank_of st j" by blast
    have eq: "symmetric_difference S {i, j} = insert i (S - {j})"
      using i jS by (rule symmetric_difference_swap)
    have "insert i S \<subseteq> dom (self_sorting st)" using props(4) assms(3) by blast
    with inj have inj': "inj_on (rank_of st) (insert i S)" by (rule inj_on_subset)
    show "(descending_ranks st (symmetric_difference S {i, j}), descending_ranks st S)
             \<in> lexord {(a, b). a < b}
           \<and> rank_sum st (symmetric_difference S {i, j}) < rank_sum st S"
      unfolding eq
      using descending_ranks_swap [OF assms(2) i jS less inj'] rank_sum_swap [OF assms(2) i jS less]
      by (rule conjI)
  qed
  show "\<exists>r :: ('a, 'r) element. \<forall>n > rank_sum st S. subset_image_fuel n st S = Some (Inr r)"
    by (rule subset_image_returns [OF assms])
qed

theorem subset_image_terminates_witness:
  "init diamond None = Inr diamond_algebra \<and> finite {2::nat, 3, 4}
   \<and> {2, 3, 4} \<subseteq> dom (self_sorting diamond_algebra)
   \<and> inj_on (rank_of diamond_algebra) (dom (self_sorting diamond_algebra))
   \<and> ({2, 3, 4}, 0) \<in> set (self_broken_circuits diamond_algebra)
   \<and> rank_of diamond_algebra 0 < rank_of diamond_algebra 3
   \<and> (descending_ranks diamond_algebra (symmetric_difference {2, 3, 4} {0, 3}),
        descending_ranks diamond_algebra {2, 3, 4}) \<in> lexord {(a, b). a < b}
   \<and> rank_sum diamond_algebra (symmetric_difference {2, 3, 4} {0, 3})
        < rank_sum diamond_algebra {2, 3, 4}
   \<and> (\<exists>r :: (nat, int) element.
         \<forall>n > rank_sum diamond_algebra {2, 3, 4}.
            subset_image_fuel n diamond_algebra {2, 3, 4} = Some (Inr r))"
proof -
  have fin: "finite {2::nat, 3, 4}" by simp
  have dom: "{2, 3, 4} \<subseteq> dom (self_sorting diamond_algebra)"
    by (simp add: diamond_algebra_def dom_sorting_of)
  have entry: "({2, 3, 4}, 0) \<in> set (self_broken_circuits diamond_algebra)"
    by (simp add: diamond_algebra_def)
  note concl = subset_image_terminates [OF init_diamond fin dom, where ?'r = int]
  from concl have inj: "inj_on (rank_of diamond_algebra) (dom (self_sorting diamond_algebra))"
    by (rule conjunct1)
  from concl have "\<forall>(bc, i) \<in> set (self_broken_circuits diamond_algebra).
      \<forall>x\<in>bc. rank_of diamond_algebra i < rank_of diamond_algebra x"
    by (rule conjunct2 [THEN conjunct1])
  with entry have less: "rank_of diamond_algebra 0 < rank_of diamond_algebra 3" by fastforce
  from concl have "\<forall>(bc, i) \<in> set (self_broken_circuits diamond_algebra). bc \<subseteq> {2, 3, 4}
      \<longrightarrow> i \<notin> {2, 3, 4}
      \<longrightarrow> (\<forall>j\<in>bc. (descending_ranks diamond_algebra (symmetric_difference {2, 3, 4} {i, j}),
                      descending_ranks diamond_algebra {2, 3, 4}) \<in> lexord {(a, b). a < b}
                  \<and> rank_sum diamond_algebra (symmetric_difference {2, 3, 4} {i, j})
                      < rank_sum diamond_algebra {2, 3, 4})"
    by (rule conjunct2 [THEN conjunct2, THEN conjunct1])
  with entry have step: "(descending_ranks diamond_algebra (symmetric_difference {2, 3, 4} {0, 3}),
        descending_ranks diamond_algebra {2, 3, 4}) \<in> lexord {(a, b). a < b}
      \<and> rank_sum diamond_algebra (symmetric_difference {2, 3, 4} {0, 3})
        < rank_sum diamond_algebra {2, 3, 4}"
    by fastforce
  from concl have ret: "\<exists>r :: (nat, int) element.
         \<forall>n > rank_sum diamond_algebra {2, 3, 4}.
            subset_image_fuel n diamond_algebra {2, 3, 4} = Some (Inr r)"
    by (rule conjunct2 [THEN conjunct2, THEN conjunct2])
  show ?thesis
    by (rule conjI [OF init_diamond conjI [OF fin conjI [OF dom conjI [OF inj conjI [OF entry
        conjI [OF less conjI [OF step [THEN conjunct1] conjI [OF step [THEN conjunct2] ret]]]]]]]])
qed

subsection \<open>Dependent sets have image zero\<close>

lemma add_zero_scale_zero: "add zero (scale k zero) = zero"
  by (simp add: add_def scale_def zero_def)

lemma reduce_loop_zero:
  assumes "\<And>j. j \<in> set js \<Longrightarrow> j \<in> bc \<Longrightarrow> rec (symmetric_difference S {i, j}) = Some (Inr zero)"
  shows "reduce_loop rec S bc i js (zero, c0) = Some (Inr zero)"
  using assms
proof (induction js arbitrary: c0)
  case Nil
  then show ?case by simp
next
  case (Cons j js)
  have rest: "reduce_loop rec S bc i js (zero, c1) = Some (Inr zero)" for c1
  proof (rule Cons.IH)
    fix j' assume "j' \<in> set js" "j' \<in> bc"
    then show "rec (symmetric_difference S {i, j'}) = Some (Inr zero)"
      using Cons.prems [of j'] by simp
  qed
  show ?case
  proof (cases "j \<in> bc")
    case False
    with rest [of "c0 * (- 1)"] show ?thesis by simp
  next
    case True
    with Cons.prems [of j] have "rec (symmetric_difference S {i, j}) = Some (Inr zero)" by simp
    with True rest [of "c0 * (- 1)"] show ?thesis by (simp add: add_zero_scale_zero)
  qed
qed

text \<open>A rewriting step of a set that contains a circuit yields sets that contain a circuit.\<close>

lemma swap_contains_circuit:
  assumes elim: "circuit_elimination M"
    and c: "c \<in> set (circuits M)" "c \<subseteq> S"
    and c': "insert i bc \<in> set (circuits M)" "bc \<subseteq> S" "i \<notin> S"
  shows "\<exists>c''\<in>set (circuits M). c'' \<subseteq> insert i (S - {j})"
proof (cases "j \<in> c")
  case False
  with c(2) have "c \<subseteq> insert i (S - {j})" by blast
  with c(1) show ?thesis by blast
next
  case True
  show ?thesis
  proof (cases "j \<in> bc")
    case False
    with c'(2) have "insert i bc \<subseteq> insert i (S - {j})" by blast
    with c'(1) show ?thesis by blast
  next
    case jbc: True
    from c(2) c'(3) have "c \<noteq> insert i bc" by blast
    moreover from True jbc have "j \<in> c \<inter> insert i bc" by simp
    ultimately obtain c3 where c3: "c3 \<in> set (circuits M)" "c3 \<subseteq> (c \<union> insert i bc) - {j}"
      using elim c(1) c'(1) unfolding circuit_elimination_def by meson
    from c3(2) c(2) c'(2) have "c3 \<subseteq> insert i (S - {j})" by blast
    with c3(1) show ?thesis by blast
  qed
qed

lemma subset_image_dependent_aux:
  assumes init: "init M ordr = Inr st" and elim: "circuit_elimination M"
  shows "finite S \<Longrightarrow> S \<subseteq> dom (self_sorting st) \<Longrightarrow> rank_sum st S < n
     \<Longrightarrow> \<exists>c\<in>set (circuits M). c \<subseteq> S
     \<Longrightarrow> subset_image_fuel n st S = Some (Inr (zero :: ('a::linorder, 'r::comm_ring_1) element))"
proof (induction n arbitrary: S)
  case 0
  then show ?case by simp
next
  case (Suc n)
  from Suc.prems(4) obtain c where c: "c \<in> set (circuits M)" "c \<subseteq> S" by blast
  note Ss = sorted_by_rank_ranked [OF Suc.prems(1,2)]
  have setSs: "set (sort_key (\<lambda>x. the (self_sorting st x)) (sorted_list_of_set S)) = S"
    using Suc.prems(1) by simp
  from init_circuit_key(1) [OF init c(1)] c(2)
  obtain bc0 where "bc0 \<in> fst ` set (self_broken_circuits st)" "bc0 \<subseteq> S" by blast
  from find_key_exists [OF this]
  obtain bc where Some: "find (\<lambda>bc. bc \<subseteq> S) (map fst (self_broken_circuits st)) = Some bc"
    by blast
  from find_key_Some [OF Some] obtain i where bcS: "bc \<subseteq> S"
    and i: "map_of (self_broken_circuits st) bc = Some i"
    and entry: "(bc, i) \<in> set (self_broken_circuits st)"
    by blast
  note entry_props = init_table_entry [OF init entry]
  show ?case
  proof (cases "i \<in> S")
    case True
    with Ss Some i show ?thesis by simp
  next
    case False
    have "reduce_loop (\<lambda>T. subset_image_fuel n st T) S bc i
            (sort_key (\<lambda>x. the (self_sorting st x)) (sorted_list_of_set S)) (zero, 1)
          = Some (Inr (zero :: ('a, 'r) element))"
    proof (rule reduce_loop_zero)
      fix j assume "j \<in> set (sort_key (\<lambda>x. the (self_sorting st x)) (sorted_list_of_set S))"
        and jbc: "j \<in> bc"
      with setSs have jS: "j \<in> S" by simp
      have eq: "symmetric_difference S {i, j} = insert i (S - {j})"
        using False jS by (rule symmetric_difference_swap)
      from entry_props(5) jbc have "rank_of st i < rank_of st j" by blast
      from rank_sum_swap [OF Suc.prems(1) False jS this] Suc.prems(3)
      have less: "rank_sum st (insert i (S - {j})) < n" by simp
      have fin: "finite (insert i (S - {j}))" using Suc.prems(1) by simp
      have dom: "insert i (S - {j}) \<subseteq> dom (self_sorting st)"
        using entry_props(4) Suc.prems(2) by blast
      have dep: "\<exists>c''\<in>set (circuits M). c'' \<subseteq> insert i (S - {j})"
        by (rule swap_contains_circuit [OF elim c entry_props(1) bcS False])
      from Suc.IH [OF fin dom less dep]
      show "subset_image_fuel n st (symmetric_difference S {i, j})
              = Some (Inr (zero :: ('a, 'r) element))"
        by (simp only: eq)
    qed
    then show ?thesis by (simp only: subset_image_fuel_loop [OF Ss Some i False])
  qed
qed

lemma circuit_elimination_diamond: "circuit_elimination diamond"
  unfolding circuit_elimination_def diamond_def by (simp; blast?)

text \<open>
  C4.  For an algebra built by \<open>init\<close> from a matroid (its circuits satisfy the elimination
  axiom) and a finite set \<open>S\<close> of ranked elements: when \<open>S\<close> contains a key \<open>bc\<close> of the table
  together with the element \<open>i = table[bc]\<close>, \<^verbatim>\<open>subset_image(S)\<close> returns the zero element,
  whichever broken circuit the scan finds first; and \<^verbatim>\<open>subset_image(C)\<close> is zero for every
  circuit \<open>C\<close> of the matroid.
\<close>

theorem subset_image_dependent:
  assumes "init M ordr = Inr st" and "circuit_elimination M"
  shows "(finite S \<and> S \<subseteq> dom (self_sorting st) \<and> map_of (self_broken_circuits st) bc = Some i
            \<and> bc \<subseteq> S \<and> i \<in> S
          \<longrightarrow> (\<forall>n > rank_sum st S.
                 subset_image_fuel n st S = Some (Inr (zero :: ('a::linorder, 'r::comm_ring_1) element))))
     \<and> (C \<in> set (circuits M)
          \<longrightarrow> (\<forall>n > rank_sum st C.
                 subset_image_fuel n st C = Some (Inr (zero :: ('a, 'r) element))))"
proof (intro conjI impI allI)
  fix n
  assume S: "finite S \<and> S \<subseteq> dom (self_sorting st) \<and> map_of (self_broken_circuits st) bc = Some i
            \<and> bc \<subseteq> S \<and> i \<in> S" and n: "rank_sum st S < n"
  then have entry: "(bc, i) \<in> set (self_broken_circuits st)" by (auto dest: map_of_SomeD)
  from init_table_entry(1) [OF assms(1) entry] S
  have "\<exists>c\<in>set (circuits M). c \<subseteq> S" by blast
  with S n show "subset_image_fuel n st S = Some (Inr (zero :: ('a, 'r) element))"
    by (intro subset_image_dependent_aux [OF assms]) auto
next
  fix n
  assume C: "C \<in> set (circuits M)" and n: "rank_sum st C < n"
  note props = init_circuit_key [OF assms(1) C]
  from C have "\<exists>c\<in>set (circuits M). c \<subseteq> C" by blast
  from subset_image_dependent_aux [OF assms props(2,3) n this]
  show "subset_image_fuel n st C = Some (Inr (zero :: ('a, 'r) element))" .
qed

theorem subset_image_dependent_witness:
  "init diamond None = Inr diamond_algebra \<and> circuit_elimination diamond
   \<and> (finite {1::nat, 2, 3, 4} \<and> {1, 2, 3, 4} \<subseteq> dom (self_sorting diamond_algebra)
        \<and> map_of (self_broken_circuits diamond_algebra) {2, 4} = Some 1
        \<and> {2, 4} \<subseteq> {1::nat, 2, 3, 4} \<and> 1 \<in> {1::nat, 2, 3, 4})
   \<and> {0, 1, 3} \<in> set (circuits diamond)
   \<and> rank_sum diamond_algebra {1, 2, 3, 4} < 11
   \<and> subset_image_fuel 11 diamond_algebra {1, 2, 3, 4} = Some (Inr (zero :: (nat, int) element))
   \<and> rank_sum diamond_algebra {0, 1, 3} < 5
   \<and> subset_image_fuel 5 diamond_algebra {0, 1, 3} = Some (Inr (zero :: (nat, int) element))"
proof -
  have S: "finite {1::nat, 2, 3, 4} \<and> {1, 2, 3, 4} \<subseteq> dom (self_sorting diamond_algebra)
        \<and> map_of (self_broken_circuits diamond_algebra) {2, 4} = Some 1
        \<and> {2, 4} \<subseteq> {1::nat, 2, 3, 4} \<and> 1 \<in> {1::nat, 2, 3, 4}"
    by (simp add: diamond_algebra_def dom_sorting_of) code_simp
  have C: "{0, 1, 3} \<in> set (circuits diamond)" by (simp add: diamond_def)
  have r1: "rank_sum diamond_algebra {1, 2, 3, 4} < 11"
    by (simp add: rank_sum_def rank_of_def diamond_algebra_def sorting_of_def)
  have r2: "rank_sum diamond_algebra {0, 1, 3} < 5"
    by (simp add: rank_sum_def rank_of_def diamond_algebra_def sorting_of_def)
  note t = subset_image_dependent [OF init_diamond circuit_elimination_diamond,
      of "{1, 2, 3, 4}" "{2, 4}" 1 "{0, 1, 3}", where ?'r = int]
  from t S have "\<forall>n > rank_sum diamond_algebra {1, 2, 3, 4}.
      subset_image_fuel n diamond_algebra {1, 2, 3, 4} = Some (Inr (zero :: (nat, int) element))"
    by (rule conjunct1 [THEN mp])
  with r1 have 1: "subset_image_fuel 11 diamond_algebra {1, 2, 3, 4} = Some (Inr (zero :: (nat, int) element))"
    by blast
  from t C have "\<forall>n > rank_sum diamond_algebra {0, 1, 3}.
      subset_image_fuel n diamond_algebra {0, 1, 3} = Some (Inr (zero :: (nat, int) element))"
    by (rule conjunct2 [THEN mp])
  with r2 have 2: "subset_image_fuel 5 diamond_algebra {0, 1, 3} = Some (Inr (zero :: (nat, int) element))"
    by blast
  show ?thesis
    by (rule conjI [OF init_diamond conjI [OF circuit_elimination_diamond conjI [OF S conjI [OF C
        conjI [OF r1 conjI [OF 1 conjI [OF r2 2]]]]]]])
qed

subsection \<open>The rewriting branch in closed form\<close>

lemma reduce_loop_closed:
  fixes r0 :: "('a, 'r::comm_ring_1) element"
  assumes "\<And>j. j \<in> set js \<Longrightarrow> j \<in> bc \<Longrightarrow> rec (symmetric_difference S {i, j}) = Some (Inr (rs j))"
    and "\<And>j. j \<in> set js \<Longrightarrow> j \<in> bc \<Longrightarrow> distinct (map fst (rs j))"
  shows "\<exists>r. reduce_loop rec S bc i js (r0, c0) = Some (Inr r)
           \<and> (\<forall>m. coefficient r m = coefficient r0 m
                 + (\<Sum>k<length js. if js ! k \<in> bc then c0 * (- 1) ^ k * coefficient (rs (js ! k)) m else 0))"
  using assms
proof (induction js arbitrary: r0 c0)
  case Nil
  then show ?case by simp
next
  case (Cons j js)
  have rest: "\<exists>r. reduce_loop rec S bc i js (r1, c1) = Some (Inr r)
           \<and> (\<forall>m. coefficient r m = coefficient r1 m
                 + (\<Sum>k<length js. if js ! k \<in> bc then c1 * (- 1) ^ k * coefficient (rs (js ! k)) m else 0))"
    for r1 :: "('a, 'r) element" and c1
  proof (rule Cons.IH)
    fix j' assume j': "j' \<in> set js" "j' \<in> bc"
    then show "rec (symmetric_difference S {i, j'}) = Some (Inr (rs j'))"
      using Cons.prems(1) [of j'] by simp
    from j' show "distinct (map fst (rs j'))" using Cons.prems(2) [of j'] by simp
  qed
  have shift: "(\<Sum>k<length (j # js). if (j # js) ! k \<in> bc then c0 * (- 1) ^ k * coefficient (rs ((j # js) ! k)) m else 0)
      = (if j \<in> bc then c0 * coefficient (rs j) m else 0)
        + (\<Sum>k<length js. if js ! k \<in> bc then (c0 * (- 1)) * (- 1) ^ k * coefficient (rs (js ! k)) m else 0)"
    for m
  proof -
    have len: "length (j # js) = Suc (length js)" by simp
    show ?thesis unfolding len sum.lessThan_Suc_shift by (simp add: mult.assoc cong: if_cong)
  qed
  show ?case
  proof (cases "j \<in> bc")
    case False
    from rest [of r0 "c0 * (- 1)"] obtain r where
      r: "reduce_loop rec S bc i js (r0, c0 * (- 1)) = Some (Inr r)"
      and cf: "\<forall>m. coefficient r m = coefficient r0 m
                 + (\<Sum>k<length js. if js ! k \<in> bc then (c0 * (- 1)) * (- 1) ^ k * coefficient (rs (js ! k)) m else 0)"
      by blast
    from False r have "reduce_loop rec S bc i (j # js) (r0, c0) = Some (Inr r)" by simp
    moreover have "\<forall>m. coefficient r m = coefficient r0 m
        + (\<Sum>k<length (j # js). if (j # js) ! k \<in> bc then c0 * (- 1) ^ k * coefficient (rs ((j # js) ! k)) m else 0)"
      using cf False by (simp only: shift) simp
    ultimately show ?thesis by blast
  next
    case True
    from Cons.prems(1) [of j] True have x: "rec (symmetric_difference S {i, j}) = Some (Inr (rs j))"
      by simp
    from Cons.prems(2) [of j] True have d: "distinct (map fst (rs j))" by simp
    from rest [of "add r0 (scale c0 (rs j))" "c0 * (- 1)"] obtain r where
      r: "reduce_loop rec S bc i js (add r0 (scale c0 (rs j)), c0 * (- 1)) = Some (Inr r)"
      and cf: "\<forall>m. coefficient r m = coefficient (add r0 (scale c0 (rs j))) m
                 + (\<Sum>k<length js. if js ! k \<in> bc then (c0 * (- 1)) * (- 1) ^ k * coefficient (rs (js ! k)) m else 0)"
      by blast
    have acc: "coefficient (add r0 (scale c0 (rs j))) m = coefficient r0 m + c0 * coefficient (rs j) m" for m
      by (simp add: coefficient_add [OF distinct_scale [OF d]] coefficient_scale [OF d])
    from True x r have "reduce_loop rec S bc i (j # js) (r0, c0) = Some (Inr r)" by simp
    moreover have "\<forall>m. coefficient r m = coefficient r0 m
        + (\<Sum>k<length (j # js). if (j # js) ! k \<in> bc then c0 * (- 1) ^ k * coefficient (rs ((j # js) ! k)) m else 0)"
      using cf True by (simp only: shift acc) (simp add: add.assoc)
    ultimately show ?thesis by blast
  qed
qed

lemma subset_image_diamond_branches:
  "subset_image_fuel 2 diamond_algebra (symmetric_difference {2, 3, 4} {0, 2}) = Some (Inr (diamond_branch 2))"
  "subset_image_fuel 2 diamond_algebra (symmetric_difference {2, 3, 4} {0, 3}) = Some (Inr (diamond_branch 3))"
  "subset_image_fuel 2 diamond_algebra (symmetric_difference {2, 3, 4} {0, 4}) = Some (Inr (diamond_branch 4))"
  by code_simp+

text \<open>
  C2.  Let \<open>bc\<close> be the key that the scan of the table finds in the finite, ranked set \<open>S\<close>,
  let \<open>i = table[bc]\<close> not be in \<open>S\<close>, and let the recursive calls on
  \<open>S \<triangle> {i, j}\<close>, \<open>j \<in> bc\<close>, return \<open>rs j\<close> within depth \<open>n\<close>.  Then \<^verbatim>\<open>subset_image(S)\<close>
  returns within depth \<open>n + 1\<close>, and with \<open>Ss\<close> the elements of \<open>S\<close> in ascending rank
  order its value is the sum over the zero-based positions \<open>k\<close> with \<open>Ss ! k \<in> bc\<close> of
  \<open>(-1)^k\<close> times \<open>rs (Ss ! k)\<close>; each argument \<open>S \<triangle> {i, j}\<close> is \<open>S\<close> with \<open>j\<close> removed and
  \<open>i\<close> inserted.
\<close>

theorem subset_image_rewrite:
  fixes rs :: "'a::linorder \<Rightarrow> ('a, 'r::comm_ring_1) element"
  assumes "finite S" and "S \<subseteq> dom (self_sorting st)"
    and "find (\<lambda>bc. bc \<subseteq> S) (map fst (self_broken_circuits st)) = Some bc"
    and "map_of (self_broken_circuits st) bc = Some i" and "i \<notin> S"
    and "\<forall>j\<in>bc. subset_image_fuel n st (symmetric_difference S {i, j}) = Some (Inr (rs j))"
  shows "\<exists>Ss r. sorted_by_rank (self_sorting st) S = Inr Ss
           \<and> set Ss = S \<and> distinct Ss \<and> sorted (map (rank_of st) Ss)
           \<and> subset_image_fuel (Suc n) st S = Some (Inr r)
           \<and> (\<forall>m. coefficient r m
                  = (\<Sum>k | k < length Ss \<and> Ss ! k \<in> bc. (- 1) ^ k * coefficient (rs (Ss ! k)) m))
           \<and> (\<forall>j\<in>bc. symmetric_difference S {i, j} = insert i (S - {j}))"
proof -
  define Ss where "Ss = sort_key (\<lambda>x. the (self_sorting st x)) (sorted_list_of_set S)"
  have sb: "sorted_by_rank (self_sorting st) S = Inr Ss"
    unfolding Ss_def using assms(1,2) by (rule sorted_by_rank_ranked)
  note props = sorted_by_rank_Inr [OF sb assms(1)]
  have bcS: "bc \<subseteq> S" by (rule find_key_Some(1) [OF assms(3)])
  have "\<exists>r. reduce_loop (\<lambda>T. subset_image_fuel n st T) S bc i Ss (zero, 1) = Some (Inr r)
           \<and> (\<forall>m. coefficient r m = coefficient (zero :: ('a, 'r) element) m
                 + (\<Sum>k<length Ss. if Ss ! k \<in> bc then 1 * (- 1) ^ k * coefficient (rs (Ss ! k)) m else 0))"
  proof (rule reduce_loop_closed)
    fix j assume "j \<in> set Ss" and j: "j \<in> bc"
    with assms(6) show rsj: "subset_image_fuel n st (symmetric_difference S {i, j}) = Some (Inr (rs j))"
      by blast
    then show "distinct (map fst (rs j))" by (rule subset_image_distinct)
  qed
  then obtain r where r: "reduce_loop (\<lambda>T. subset_image_fuel n st T) S bc i Ss (zero, 1) = Some (Inr r)"
    and cf: "\<forall>m. coefficient r m
        = (\<Sum>k<length Ss. if Ss ! k \<in> bc then (- 1) ^ k * coefficient (rs (Ss ! k)) m else 0)"
    by (auto simp: coefficient_zero cong: if_cong)
  have sum_eq: "(\<Sum>k<length Ss. if Ss ! k \<in> bc then (- 1) ^ k * coefficient (rs (Ss ! k)) m else 0)
      = (\<Sum>k | k < length Ss \<and> Ss ! k \<in> bc. (- 1) ^ k * coefficient (rs (Ss ! k)) m)" for m
  proof -
    have "{k. k < length Ss \<and> Ss ! k \<in> bc} = {k \<in> {..<length Ss}. Ss ! k \<in> bc}" by auto
    then show ?thesis by (simp only: sum.inter_filter [OF finite_lessThan])
  qed
  have 1: "subset_image_fuel (Suc n) st S = Some (Inr r)"
    using r by (simp only: subset_image_fuel_loop [OF sb assms(3,4,5)])
  have 2: "\<forall>m. coefficient r m
      = (\<Sum>k | k < length Ss \<and> Ss ! k \<in> bc. (- 1) ^ k * coefficient (rs (Ss ! k)) m)"
    using cf unfolding sum_eq by assumption
  have 3: "\<forall>j\<in>bc. symmetric_difference S {i, j} = insert i (S - {j})"
  proof
    fix j assume "j \<in> bc"
    with bcS have "j \<in> S" by blast
    with assms(5) show "symmetric_difference S {i, j} = insert i (S - {j})"
      by (rule symmetric_difference_swap)
  qed
  have 4: "sorted (map (rank_of st) Ss)" using props(3) by (simp add: rank_of_def [abs_def])
  from sb props(1,2) 4 1 2 3 show ?thesis by blast
qed


theorem subset_image_rewrite_witness:
  "finite {2::nat, 3, 4} \<and> {2, 3, 4} \<subseteq> dom (self_sorting diamond_algebra)
   \<and> find (\<lambda>bc. bc \<subseteq> {2, 3, 4}) (map fst (self_broken_circuits diamond_algebra)) = Some {2, 3, 4}
   \<and> map_of (self_broken_circuits diamond_algebra) {2, 3, 4} = Some 0 \<and> 0 \<notin> {2::nat, 3, 4}
   \<and> subset_image_fuel 2 diamond_algebra (symmetric_difference {2, 3, 4} {0, 2})
        = Some (Inr (diamond_branch 2))
   \<and> subset_image_fuel 2 diamond_algebra (symmetric_difference {2, 3, 4} {0, 3})
        = Some (Inr (diamond_branch 3))
   \<and> subset_image_fuel 2 diamond_algebra (symmetric_difference {2, 3, 4} {0, 4})
        = Some (Inr (diamond_branch 4))
   \<and> (\<exists>Ss r. sorted_by_rank (self_sorting diamond_algebra) {2, 3, 4} = Inr Ss
           \<and> set Ss = {2, 3, 4} \<and> distinct Ss \<and> sorted (map (rank_of diamond_algebra) Ss)
           \<and> subset_image_fuel (Suc 2) diamond_algebra {2, 3, 4} = Some (Inr r)
           \<and> (\<forall>m. coefficient r m
                  = (\<Sum>k | k < length Ss \<and> Ss ! k \<in> {2, 3, 4}.
                       (- 1) ^ k * coefficient (diamond_branch (Ss ! k)) m))
           \<and> (\<forall>j\<in>{2::nat, 3, 4}. symmetric_difference {2, 3, 4} {0, j} = insert 0 ({2, 3, 4} - {j})))"
proof -
  have fin: "finite {2::nat, 3, 4}" by simp
  have dom: "{2, 3, 4} \<subseteq> dom (self_sorting diamond_algebra)"
    by (simp add: diamond_algebra_def dom_sorting_of)
  have scan: "find (\<lambda>bc. bc \<subseteq> {2, 3, 4}) (map fst (self_broken_circuits diamond_algebra)) = Some {2, 3, 4}"
    by code_simp
  have val: "map_of (self_broken_circuits diamond_algebra) {2, 3, 4} = Some 0"
    by code_simp
  have notin: "0 \<notin> {2::nat, 3, 4}" by simp
  note b = subset_image_diamond_branches
  have calls: "\<forall>j\<in>{2, 3, 4}. subset_image_fuel 2 diamond_algebra (symmetric_difference {2, 3, 4} {0, j})
          = Some (Inr (diamond_branch j))"
    using b by simp
  note concl = subset_image_rewrite [OF fin dom scan val notin calls]
  show ?thesis
    by (rule conjI [OF fin conjI [OF dom conjI [OF scan conjI [OF val conjI [OF notin
        conjI [OF b(1) conjI [OF b(2) conjI [OF b(3) concl]]]]]]]])
qed

subsection \<open>Graded commutativity\<close>

lemma sorted_list_of_set_six: "sorted_list_of_set {0::nat, 1, 2, 3, 4, 5} = [0, 1, 2, 3, 4, 5]"
  by code_simp

lemma table_theta:
  "build_table (sorting_of [0::nat, 1, 2, 3, 4, 5]) [{0, 3, 4}, {1, 2, 3, 5}, {0, 1, 2, 4, 5}] []
     = Inr [({3, 4}, 0), ({2, 3, 5}, 1), ({1, 2, 4, 5}, 0)]"
  by code_simp

lemma init_theta: "init (theta [{0, 3, 4}, {1, 2, 3, 5}, {0, 1, 2, 4, 5}]) None = Inr theta_algebra"
  by (simp only: init_def theta_def theta_algebra_def matroid.simps option.case Let_def
      sorted_list_of_set_six table_theta sum.case)

lemma circuit_elimination_theta: "circuit_elimination (theta [{0, 3, 4}, {1, 2, 3, 5}, {0, 1, 2, 4, 5}])"
  by code_simp

lemma is_nbc_theta: "is_nbc theta_algebra {2, 4}" "is_nbc theta_algebra {3, 5}"
  by code_simp+

lemma product_theta_24_35:
  "(product_on_basis_fuel 5 theta_algebra {2, 4} {3, 5} :: (nat, int) element outcome)
     = Some (Inr [({0, 1, 3, 5}, - 1), ({0, 2, 4, 5}, 1), ({0, 1, 2, 5}, 1), ({0, 1, 2, 3}, - 1)])"
  by code_simp

lemma product_theta_35_24:
  "(product_on_basis_fuel 5 theta_algebra {3, 5} {2, 4} :: (nat, int) element outcome)
     = Some (Inr [({0, 2, 4, 5}, 1), ({0, 1, 3, 5}, 1), ({0, 1, 2, 5}, - 1), ({0, 1, 2, 3}, 1)])"
  by code_simp

lemma theta_every_order:
  "list_all (\<lambda>cs. case init (theta cs) None of
                     Inl e \<Rightarrow> False
                   | Inr st \<Rightarrow> \<not> graded_commutative_at 5 st {2, 4} {3, 5} {0, 1, 3, 5})
     [[{0, 3, 4}, {1, 2, 3, 5}, {0, 1, 2, 4, 5}], [{0, 3, 4}, {0, 1, 2, 4, 5}, {1, 2, 3, 5}],
      [{1, 2, 3, 5}, {0, 3, 4}, {0, 1, 2, 4, 5}], [{1, 2, 3, 5}, {0, 1, 2, 4, 5}, {0, 3, 4}],
      [{0, 1, 2, 4, 5}, {0, 3, 4}, {1, 2, 3, 5}], [{0, 1, 2, 4, 5}, {1, 2, 3, 5}, {0, 3, 4}]]"
  by code_simp

text \<open>
  C5 does not hold of the code.  \<open>{2, 4}\<close> and \<open>{3, 5}\<close> are disjoint NBC sets of the theta
  matroid, both of cardinality 2, so graded commutativity asks for
  \<^verbatim>\<open>product_on_basis({2, 4}, {3, 5}) = product_on_basis({3, 5}, {2, 4})\<close>; the two values
  that the code returns differ, for instance in the coefficient of \<open>{0, 1, 3, 5}\<close>.  By
  \<open>theta_every_order\<close> this is so for every order in which the circuits are enumerated.
\<close>

theorem product_on_basis_not_graded_commutative:
  "init (theta [{0, 3, 4}, {1, 2, 3, 5}, {0, 1, 2, 4, 5}]) None = Inr theta_algebra
   \<and> is_nbc theta_algebra {2, 4} \<and> is_nbc theta_algebra {3, 5} \<and> {2, 4} \<inter> {3, 5} = ({} :: nat set)
   \<and> (product_on_basis_fuel 5 theta_algebra {2, 4} {3, 5} :: (nat, int) element outcome)
       = Some (Inr [({0, 1, 3, 5}, - 1), ({0, 2, 4, 5}, 1), ({0, 1, 2, 5}, 1), ({0, 1, 2, 3}, - 1)])
   \<and> (product_on_basis_fuel 5 theta_algebra {3, 5} {2, 4} :: (nat, int) element outcome)
       = Some (Inr [({0, 2, 4, 5}, 1), ({0, 1, 3, 5}, 1), ({0, 1, 2, 5}, - 1), ({0, 1, 2, 3}, 1)])
   \<and> coefficient [({0, 1, 3, 5}, - 1), ({0, 2, 4, 5}, 1), ({0, 1, 2, 5}, 1), ({0::nat, 1, 2, 3}, - 1 :: int)]
         {0, 1, 3, 5} = - 1
   \<and> coefficient (scale ((- 1) ^ (card {2::nat, 4} * card {3::nat, 5}))
         [({0, 2, 4, 5}, 1), ({0, 1, 3, 5}, 1), ({0, 1, 2, 5}, - 1), ({0::nat, 1, 2, 3}, 1 :: int)])
         {0, 1, 3, 5} = 1"
proof -
  have 1: "{2, 4} \<inter> {3, 5} = ({} :: nat set)" by simp
  have 2: "coefficient [({0, 1, 3, 5}, - 1), ({0, 2, 4, 5}, 1), ({0, 1, 2, 5}, 1), ({0::nat, 1, 2, 3}, - 1 :: int)]
         {0, 1, 3, 5} = - 1"
    by code_simp
  have 3: "coefficient (scale ((- 1) ^ (card {2::nat, 4} * card {3::nat, 5}))
         [({0, 2, 4, 5}, 1), ({0, 1, 3, 5}, 1), ({0, 1, 2, 5}, - 1), ({0::nat, 1, 2, 3}, 1 :: int)])
         {0, 1, 3, 5} = 1"
    by code_simp
  show ?thesis
    by (rule conjI [OF init_theta conjI [OF is_nbc_theta(1) conjI [OF is_nbc_theta(2) conjI [OF 1
        conjI [OF product_theta_24_35 conjI [OF product_theta_35_24 conjI [OF 2 3]]]]]]])
qed

subsection \<open>Construction with an explicit ordering\<close>

lemma sorted_by_rank_KeyError:
  "finite c \<Longrightarrow> \<not> c \<subseteq> dom srt \<Longrightarrow> sorted_by_rank srt c = Inl KeyError"
  by (auto simp: sorted_by_rank_def list_all_iff)

lemma add_circuit_KeyError:
  "finite c \<Longrightarrow> \<not> c \<subseteq> dom srt \<Longrightarrow> add_circuit srt c tbl = Inl KeyError"
  by (simp add: add_circuit_def sorted_by_rank_KeyError)

lemma add_circuit_ok:
  assumes "finite c" and "c \<noteq> {}" and "c \<subseteq> dom srt"
  shows "\<exists>tbl'. add_circuit srt c tbl = Inr tbl'"
proof -
  let ?L = "sort_key (\<lambda>x. the (srt x)) (sorted_list_of_set c)"
  have "length ?L = card c" using assms(1) by simp
  moreover have "card c \<noteq> 0" using assms(1,2) by simp
  ultimately have "?L \<noteq> []" by (metis list.size(3))
  then obtain l0 rest where "?L = l0 # rest" by (cases ?L) auto
  with sorted_by_rank_ranked [OF assms(1,3)] show ?thesis by (simp add: add_circuit_def)
qed

lemma build_table_ok:
  "\<forall>c\<in>set cs. finite c \<and> c \<noteq> {} \<and> c \<subseteq> dom srt \<Longrightarrow> \<exists>tbl'. build_table srt cs tbl = Inr tbl'"
proof (induction cs arbitrary: tbl)
  case Nil
  then show ?case by simp
next
  case (Cons c cs)
  then obtain tbl1 where "add_circuit srt c tbl = Inr tbl1"
    using add_circuit_ok [of c srt tbl] by auto
  moreover from Cons obtain tbl' where "build_table srt cs tbl1 = Inr tbl'" by fastforce
  ultimately show ?case by simp
qed

lemma build_table_KeyError:
  "\<forall>c\<in>set cs. finite c \<and> c \<noteq> {} \<Longrightarrow> \<exists>c\<in>set cs. \<not> c \<subseteq> dom srt
     \<Longrightarrow> build_table srt cs tbl = Inl KeyError"
proof (induction cs arbitrary: tbl)
  case Nil
  then show ?case by simp
next
  case (Cons c cs)
  show ?case
  proof (cases "c \<subseteq> dom srt")
    case False
    with Cons.prems(1) show ?thesis by (simp add: add_circuit_KeyError)
  next
    case True
    with Cons.prems(1) obtain tbl1 where t1: "add_circuit srt c tbl = Inr tbl1"
      using add_circuit_ok [of c srt tbl] by auto
    from True Cons.prems(2) have "\<exists>c\<in>set cs. \<not> c \<subseteq> dom srt" by simp
    with Cons.IH [of tbl1] Cons.prems(1) have "build_table srt cs tbl1 = Inl KeyError" by simp
    with t1 show ?thesis by simp
  qed
qed

lemma circuits_diamond: "list_all (\<lambda>c. finite c \<and> c \<noteq> {}) (circuits diamond)"
  by (simp add: diamond_def)

text \<open>
  C8, as amended.  The steps of \<open>init\<close> that the source holds (the rank dictionary and the
  table of broken circuits) do not validate the ordering and never raise
  \<^verbatim>\<open>InvalidOrderingError\<close>.  For a matroid whose circuits are finite and nonempty and an
  explicit ordering: when the sequence omits an element of some circuit, construction fails
  with \<^verbatim>\<open>KeyError\<close>, raised by the rank lookup, before the matroid's enumeration of the NBC
  sets is called; when every element of every circuit occurs in the sequence, with or
  without duplicates, these steps build the table and construction succeeds or fails as
  that enumeration does, with its error.  The ranked elements are those of the sequence.
\<close>

theorem init_explicit_ordering:
  assumes "list_all (\<lambda>c. finite c \<and> c \<noteq> {}) (circuits M)"
  shows "(\<not> \<Union>(set (circuits M)) \<subseteq> set ord \<longrightarrow> init M (Some ord) = Inl KeyError)
       \<and> (\<Union>(set (circuits M)) \<subseteq> set ord
           \<longrightarrow> (\<exists>tbl. build_table (sorting_of ord) (circuits M) [] = Inr tbl
                 \<and> init M (Some ord)
                     = (case no_broken_circuits_sets M ord of
                          Inl e \<Rightarrow> Inl e
                        | Inr idx \<Rightarrow> Inr \<lparr>self_M = M, self_sorting = sorting_of ord,
                                           self_broken_circuits = tbl, self_indices = idx\<rparr>)))
       \<and> (init M (Some ord) = Inl InvalidOrderingError
           \<longrightarrow> no_broken_circuits_sets M ord = Inl InvalidOrderingError)
       \<and> dom (sorting_of ord) = set ord"
proof -
  from assms have circuits: "\<forall>c\<in>set (circuits M). finite c \<and> c \<noteq> {}"
    by (simp add: list_all_iff)
  have refused: "init M (Some ord) = Inl KeyError" if "\<not> \<Union>(set (circuits M)) \<subseteq> set ord"
  proof -
    from that have "\<exists>c\<in>set (circuits M). \<not> c \<subseteq> dom (sorting_of ord)"
      by (auto simp: dom_sorting_of)
    from build_table_KeyError [OF circuits this, of "[]"] show ?thesis by (simp add: init_def)
  qed
  have passed: "\<exists>tbl. build_table (sorting_of ord) (circuits M) [] = Inr tbl
                 \<and> init M (Some ord)
                     = (case no_broken_circuits_sets M ord of
                          Inl e \<Rightarrow> Inl e
                        | Inr idx \<Rightarrow> Inr \<lparr>self_M = M, self_sorting = sorting_of ord,
                                           self_broken_circuits = tbl, self_indices = idx\<rparr>)"
    if "\<Union>(set (circuits M)) \<subseteq> set ord"
  proof -
    from that circuits
    have "\<forall>c\<in>set (circuits M). finite c \<and> c \<noteq> {} \<and> c \<subseteq> dom (sorting_of ord)"
      by (auto simp: dom_sorting_of)
    from build_table_ok [OF this, of "[]"] obtain tbl where
      tbl: "build_table (sorting_of ord) (circuits M) [] = Inr tbl" by blast
    then have "init M (Some ord)
                     = (case no_broken_circuits_sets M ord of
                          Inl e \<Rightarrow> Inl e
                        | Inr idx \<Rightarrow> Inr \<lparr>self_M = M, self_sorting = sorting_of ord,
                                           self_broken_circuits = tbl, self_indices = idx\<rparr>)"
      by (simp add: init_def)
    with tbl show ?thesis by blast
  qed
  have own: "no_broken_circuits_sets M ord = Inl InvalidOrderingError"
    if "init M (Some ord) = Inl InvalidOrderingError"
  proof (cases "\<Union>(set (circuits M)) \<subseteq> set ord")
    case False
    from refused [OF this] that show ?thesis by simp
  next
    case True
    from passed [OF this] that show ?thesis
      by (cases "no_broken_circuits_sets M ord") auto
  qed
  from refused passed own show ?thesis by (simp add: dom_sorting_of)
qed

theorem init_explicit_ordering_witness:
  "list_all (\<lambda>c. finite c \<and> c \<noteq> {}) (circuits diamond)
   \<and> \<not> \<Union>(set (circuits diamond)) \<subseteq> set [0, 1, 2, 3]
   \<and> init diamond (Some [0, 1, 2, 3]) = Inl KeyError
   \<and> \<Union>(set (circuits diamond)) \<subseteq> set [4, 4, 3, 2, 1, 0]
   \<and> (\<exists>tbl. build_table (sorting_of [4, 4, 3, 2, 1, 0]) (circuits diamond) [] = Inr tbl
         \<and> init diamond (Some [4, 4, 3, 2, 1, 0])
             = (case no_broken_circuits_sets diamond [4, 4, 3, 2, 1, 0] of
                  Inl e \<Rightarrow> Inl e
                | Inr idx \<Rightarrow> Inr \<lparr>self_M = diamond, self_sorting = sorting_of [4, 4, 3, 2, 1, 0],
                                   self_broken_circuits = tbl, self_indices = idx\<rparr>))
   \<and> dom (sorting_of [4::nat, 4, 3, 2, 1, 0]) = set [4, 4, 3, 2, 1, 0]"
proof -
  have 1: "\<not> \<Union>(set (circuits diamond)) \<subseteq> set [0, 1, 2, 3]" by (simp add: diamond_def)
  have 2: "\<Union>(set (circuits diamond)) \<subseteq> set [4, 4, 3, 2, 1, 0]" by (simp add: diamond_def)
  note a = init_explicit_ordering [OF circuits_diamond, of "[0, 1, 2, 3]"]
  note b = init_explicit_ordering [OF circuits_diamond, of "[4, 4, 3, 2, 1, 0]"]
  from a 1 have 3: "init diamond (Some [0, 1, 2, 3]) = Inl KeyError"
    by (rule conjunct1 [THEN mp])
  from b 2 have 4: "\<exists>tbl. build_table (sorting_of [4, 4, 3, 2, 1, 0]) (circuits diamond) [] = Inr tbl
         \<and> init diamond (Some [4, 4, 3, 2, 1, 0])
             = (case no_broken_circuits_sets diamond [4, 4, 3, 2, 1, 0] of
                  Inl e \<Rightarrow> Inl e
                | Inr idx \<Rightarrow> Inr \<lparr>self_M = diamond, self_sorting = sorting_of [4, 4, 3, 2, 1, 0],
                                   self_broken_circuits = tbl, self_indices = idx\<rparr>)"
    by (rule conjunct2 [THEN conjunct1, THEN mp])
  from b have 5: "dom (sorting_of [4::nat, 4, 3, 2, 1, 0]) = set [4, 4, 3, 2, 1, 0]"
    by (rule conjunct2 [THEN conjunct2, THEN conjunct2])
  show ?thesis
    by (rule conjI [OF circuits_diamond conjI [OF 1 conjI [OF 3 conjI [OF 2 conjI [OF 4 5]]]]])
qed

text \<open>
  The claim as stated fails: the sequence \<open>[0, 1, 2, 3]\<close> omits the ground-set element 4 of
  the diamond matroid, and construction fails with \<^verbatim>\<open>KeyError\<close>, raised when the circuit
  \<open>{0, 2, 3, 4}\<close> is sorted by rank, not with \<^verbatim>\<open>InvalidOrderingError\<close>.
\<close>

theorem init_ordering_counterexample:
  "\<not> groundset diamond \<subseteq> set [0, 1, 2, 3]
   \<and> init diamond (Some [0, 1, 2, 3]) = Inl KeyError
   \<and> KeyError \<noteq> InvalidOrderingError"
proof -
  have "\<not> groundset diamond \<subseteq> set [0, 1, 2, 3]" by (simp add: diamond_def)
  moreover have "build_table (sorting_of [0::nat, 1, 2, 3]) [{0, 1, 3}, {0, 2, 3, 4}, {1, 2, 4}] []
      = Inl KeyError"
    by code_simp
  then have "init diamond (Some [0, 1, 2, 3]) = Inl KeyError"
    by (simp add: init_def diamond_def)
  ultimately show ?thesis by simp
qed

subsection \<open>The rendering of a basis index\<close>

lemma join_str_list: "butlast (tl (str_list repr_elt xs)) = join '', '' (map repr_elt xs)"
  by (simp add: str_list_def butlast_append)

lemma join_Cons:
  "join sep (x # xs) = (if xs = [] then x else x @ sep @ join sep xs)"
  by (cases xs) simp_all

lemma join_eq_Nil:
  "\<forall>x\<in>set xs. x \<noteq> [] \<Longrightarrow> join sep xs = [] \<longleftrightarrow> xs = []"
  by (cases xs) (auto simp: join_Cons)

lemma takeWhile_join:
  assumes "CHR '','' \<notin> set x"
  shows "takeWhile (\<lambda>c. c \<noteq> CHR '','') (join '', '' (x # xs)) = x"
  using assms by (auto simp: join_Cons takeWhile_append)

lemma dropWhile_join:
  assumes "CHR '','' \<notin> set x"
  shows "dropWhile (\<lambda>c. c \<noteq> CHR '','') (join '', '' (x # xs))
           = (if xs = [] then [] else '', '' @ join '', '' xs)"
  using assms by (auto simp: join_Cons dropWhile_append)

lemma join_inject:
  assumes "\<forall>x\<in>set xs \<union> set ys. x \<noteq> [] \<and> CHR '','' \<notin> set x"
    and "join '', '' xs = join '', '' ys"
  shows "xs = ys"
  using assms
proof (induction xs arbitrary: ys)
  case Nil
  then show ?case using join_eq_Nil [of ys "'', ''"] by auto
next
  case (Cons x xs)
  show ?case
  proof (cases ys)
    case Nil
    with Cons.prems show ?thesis using join_eq_Nil [of "x # xs" "'', ''"] by auto
  next
    case (Cons y ys')
    from Cons.prems(1) Cons have x: "CHR '','' \<notin> set x" and y: "CHR '','' \<notin> set y" by auto
    from Cons.prems(2) Cons
    have eq: "join '', '' (x # xs) = join '', '' (y # ys')" by simp
    have xy: "x = y"
      using arg_cong [OF eq, of "takeWhile (\<lambda>c. c \<noteq> CHR '','')"]
      by (simp only: takeWhile_join [OF x] takeWhile_join [OF y])
    have rest: "(if xs = [] then [] else '', '' @ join '', '' xs)
        = (if ys' = [] then [] else '', '' @ join '', '' ys')"
      using arg_cong [OF eq, of "dropWhile (\<lambda>c. c \<noteq> CHR '','')"]
      by (simp only: dropWhile_join [OF x] dropWhile_join [OF y])
    have "xs = ys'"
    proof (cases "xs = []")
      case True
      with rest show ?thesis by (auto split: if_splits)
    next
      case False
      with rest have ne: "ys' \<noteq> []" and j: "join '', '' xs = join '', '' ys'"
        by (auto split: if_splits)
      from Cons.prems(1) Cons
      have "\<forall>x\<in>set xs \<union> set ys'. x \<noteq> [] \<and> CHR '','' \<notin> set x" by auto
      from Cons.IH [OF this j] show ?thesis .
    qed
    with xy Cons show ?thesis by simp
  qed
qed

lemma str_nat_unfold:
  "str_nat n = (if n < 10 then [char_of (48 + n)] else str_nat (n div 10) @ [char_of (48 + n mod 10)])"
  by (rule str_nat.simps)

lemma str_nat_not_Nil: "str_nat n \<noteq> []"
  by (subst str_nat_unfold) simp

lemma digit_not_comma: "k < 10 \<Longrightarrow> char_of (48 + k :: nat) \<noteq> CHR '',''"
proof
  assume k: "k < 10" and "char_of (48 + k) = CHR '',''"
  then have "of_char (char_of (48 + k)) = (of_char CHR '','' :: nat)" by simp
  with k show False by simp
qed

lemma str_nat_no_comma: "CHR '','' \<notin> set (str_nat n)"
proof (induction n rule: str_nat.induct)
  case (1 n)
  show ?case
  proof (cases "n < 10")
    case True
    then show ?thesis by (subst str_nat_unfold) (simp add: digit_not_comma [THEN not_sym])
  next
    case False
    have "n mod 10 < 10" by simp
    with False 1 show ?thesis
      by (subst str_nat_unfold) (simp add: digit_not_comma [THEN not_sym])
  qed
qed

lemma digit_inject: "j < 10 \<Longrightarrow> k < 10 \<Longrightarrow> char_of (48 + j :: nat) = char_of (48 + k) \<Longrightarrow> j = k"
proof -
  assume j: "j < 10" and k: "k < 10" and "char_of (48 + j) = char_of (48 + k)"
  then have "(of_char (char_of (48 + j)) :: nat) = of_char (char_of (48 + k))" by simp
  with j k show ?thesis by simp
qed

lemma str_nat_length: "length (str_nat n) = Suc 0 \<longleftrightarrow> n < 10"
proof (cases "n < 10")
  case True
  then show ?thesis by (subst str_nat_unfold) simp
next
  case False
  then show ?thesis using str_nat_not_Nil [of "n div 10"]
    by (subst str_nat_unfold) (simp add: Suc_length_conv)
qed

lemma str_nat_inject: "str_nat m = str_nat n \<Longrightarrow> m = n"
proof (induction m arbitrary: n rule: str_nat.induct)
  case (1 m)
  from "1.prems" have len: "length (str_nat m) = Suc 0 \<longleftrightarrow> length (str_nat n) = Suc 0" by simp
  show ?case
  proof (cases "m < 10")
    case True
    with len have n: "n < 10" by (simp add: str_nat_length)
    from "1.prems" True n have "char_of (48 + m) = char_of (48 + n)"
      by (subst (asm) str_nat_unfold, subst (asm) (2) str_nat_unfold) simp
    with True n show ?thesis by (rule digit_inject)
  next
    case False
    with len have n: "\<not> n < 10" by (simp add: str_nat_length)
    from "1.prems" False n
    have "str_nat (m div 10) @ [char_of (48 + m mod 10)] = str_nat (n div 10) @ [char_of (48 + n mod 10)]"
      by (subst (asm) str_nat_unfold, subst (asm) (2) str_nat_unfold) simp
    then have tens: "str_nat (m div 10) = str_nat (n div 10)"
      and units: "char_of (48 + m mod 10) = char_of (48 + n mod 10)"
      by simp_all
    from "1.IH" [OF False tens] have "m div 10 = n div 10" .
    moreover from units have "m mod 10 = n mod 10" by (intro digit_inject) simp_all
    ultimately show ?thesis by (metis div_mult_mod_eq)
  qed
qed

lemma str_nat_renders: "inj str_nat" "\<forall>x. str_nat x \<noteq> [] \<and> CHR '','' \<notin> set (str_nat x)"
  by (auto intro: injI str_nat_inject simp: str_nat_not_Nil str_nat_no_comma)

text \<open>
  C9, as amended.  \<^verbatim>\<open>_repr_term(m)\<close> is \<^verbatim>\<open>OS{\<close>, the elements of \<open>m\<close> in the order in which
  the frozenset is iterated, separated by a comma and a space, and \<^verbatim>\<open>}\<close>.  When that
  iteration order is ascending, this is the rendering of the elements in ascending order.
  When moreover the rendering of elements is injective, never empty and free of commas, as
  the decimal rendering of integers is, it is the rendering in ascending order only when
  the iteration order is ascending.
\<close>

theorem repr_term_iteration_order:
  "repr_term repr_elt list_m = ''OS{'' @ join '', '' (map repr_elt list_m) @ ''}''
   \<and> (sorted list_m \<and> distinct list_m
        \<longrightarrow> repr_term repr_elt list_m
              = ''OS{'' @ join '', '' (map repr_elt (sorted_list_of_set (set list_m))) @ ''}'')
   \<and> (inj repr_elt \<and> (\<forall>x. repr_elt x \<noteq> [] \<and> CHR '','' \<notin> set (repr_elt x))
        \<longrightarrow> (repr_term repr_elt list_m
               = ''OS{'' @ join '', '' (map repr_elt (sorted_list_of_set (set list_m))) @ ''}''
             \<longleftrightarrow> sorted list_m \<and> distinct list_m))"
proof (intro conjI impI)
  show form: "repr_term repr_elt list_m = ''OS{'' @ join '', '' (map repr_elt list_m) @ ''}''"
    by (simp add: repr_term_def join_str_list)
  show ascending: "repr_term repr_elt list_m
      = ''OS{'' @ join '', '' (map repr_elt (sorted_list_of_set (set list_m))) @ ''}''"
    if "sorted list_m \<and> distinct list_m"
    using that by (simp add: form sorted_list_of_set.idem_if_sorted_distinct)
  show "repr_term repr_elt list_m
          = ''OS{'' @ join '', '' (map repr_elt (sorted_list_of_set (set list_m))) @ ''}''
        \<longleftrightarrow> sorted list_m \<and> distinct list_m"
    if r: "inj repr_elt \<and> (\<forall>x. repr_elt x \<noteq> [] \<and> CHR '','' \<notin> set (repr_elt x))"
  proof
    assume "repr_term repr_elt list_m
        = ''OS{'' @ join '', '' (map repr_elt (sorted_list_of_set (set list_m))) @ ''}''"
    then have "join '', '' (map repr_elt list_m)
        = join '', '' (map repr_elt (sorted_list_of_set (set list_m)))"
      by (simp add: form)
    moreover from r have "\<forall>x\<in>set (map repr_elt list_m)
        \<union> set (map repr_elt (sorted_list_of_set (set list_m))). x \<noteq> [] \<and> CHR '','' \<notin> set x"
      by auto
    ultimately have "map repr_elt list_m = map repr_elt (sorted_list_of_set (set list_m))"
      by (intro join_inject)
    with r have "list_m = sorted_list_of_set (set list_m)" by (simp add: inj_map_eq_map)
    moreover have "sorted (sorted_list_of_set (set list_m))"
      and "distinct (sorted_list_of_set (set list_m))"
      by simp_all
    ultimately show "sorted list_m \<and> distinct list_m" by simp
  next
    assume "sorted list_m \<and> distinct list_m"
    then show "repr_term repr_elt list_m
        = ''OS{'' @ join '', '' (map repr_elt (sorted_list_of_set (set list_m))) @ ''}''"
      by (rule ascending)
  qed
qed

theorem repr_term_iteration_order_witness:
  "repr_term str_nat [0, 2, 3] = ''OS{'' @ join '', '' (map str_nat [0, 2, 3]) @ ''}''
   \<and> sorted [0::nat, 2, 3] \<and> distinct [0::nat, 2, 3]
   \<and> repr_term str_nat [0, 2, 3]
        = ''OS{'' @ join '', '' (map str_nat (sorted_list_of_set (set [0, 2, 3]))) @ ''}''
   \<and> repr_term str_nat [0, 2, 3] = ''OS{0, 2, 3}''
   \<and> inj str_nat \<and> (\<forall>x. str_nat x \<noteq> [] \<and> CHR '','' \<notin> set (str_nat x))
   \<and> \<not> (sorted [8::nat, 1] \<and> distinct [8::nat, 1])
   \<and> repr_term str_nat [8, 1]
        \<noteq> ''OS{'' @ join '', '' (map str_nat (sorted_list_of_set (set [8, 1]))) @ ''}''"
proof -
  have s: "sorted [0::nat, 2, 3] \<and> distinct [0::nat, 2, 3]" by simp
  have v: "repr_term str_nat [0, 2, 3] = ''OS{0, 2, 3}''" by code_simp
  have r: "inj str_nat \<and> (\<forall>x. str_nat x \<noteq> [] \<and> CHR '','' \<notin> set (str_nat x))"
    using str_nat_renders by (rule conjI)
  have n: "\<not> (sorted [8::nat, 1] \<and> distinct [8::nat, 1])" by simp
  note t = repr_term_iteration_order [of str_nat "[0, 2, 3]"]
  note u = repr_term_iteration_order [of str_nat "[8, 1]"]
  from t have 1: "repr_term str_nat [0, 2, 3] = ''OS{'' @ join '', '' (map str_nat [0, 2, 3]) @ ''}''"
    by (rule conjunct1)
  from t s have 2: "repr_term str_nat [0, 2, 3]
        = ''OS{'' @ join '', '' (map str_nat (sorted_list_of_set (set [0, 2, 3]))) @ ''}''"
    by (rule conjunct2 [THEN conjunct1, THEN mp])
  from u r have "repr_term str_nat [8, 1]
        = ''OS{'' @ join '', '' (map str_nat (sorted_list_of_set (set [8, 1]))) @ ''}''
      \<longleftrightarrow> sorted [8::nat, 1] \<and> distinct [8::nat, 1]"
    by (rule conjunct2 [THEN conjunct2, THEN mp])
  with n have 3: "repr_term str_nat [8, 1]
        \<noteq> ''OS{'' @ join '', '' (map str_nat (sorted_list_of_set (set [8, 1]))) @ ''}''"
    by (simp only: simp_thms)
  show ?thesis
    by (rule conjI [OF 1 conjI [OF s [THEN conjunct1] conjI [OF s [THEN conjunct2] conjI [OF 2
        conjI [OF v conjI [OF r [THEN conjunct1] conjI [OF r [THEN conjunct2] conjI [OF n 3]]]]]]]])
qed

text \<open>
  The claim as stated fails for a frozenset that is not iterated in ascending order, as
  \<^verbatim>\<open>frozenset([1, 8])\<close>, whose iteration yields 8 before 1.
\<close>

theorem repr_term_sorted_counterexample:
  "repr_term str_nat [8, 1] = ''OS{8, 1}''
   \<and> ''OS{'' @ join '', '' (map str_nat (sorted_list_of_set (set [8, 1]))) @ ''}'' = ''OS{1, 8}''
   \<and> ''OS{8, 1}'' \<noteq> ''OS{1, 8}''"
  by code_simp

end
